theory Spec2Isabelle
  imports Main
begin

section \<open>Strings and the library functions the renderer calls\<close>

text \<open>
  A Go string is modelled as the list of its Unicode code points (a rune is an integer in
  Go): \<open>emit\<close> and
  \<open>breakLongLines\<close> work on \<open>[]rune(data)\<close>, and every byte-level operation of the source
  (\<open>url[0:1] == "#"\<close>, \<open>strings.Replace\<close> with ASCII patterns) agrees with the rune-level one
  on UTF-8 text. A literal of the source is written \<open>str ''...''\<close>.
\<close>

type_synonym rune = int
type_synonym gostring = "rune list"

definition str :: "string \<Rightarrow> gostring" where
  "str s = map of_char s"

text \<open>\<open>unicode.IsSpace\<close>: the Latin-1 white space and the Unicode White_Space property.\<close>

definition IsSpace :: "rune \<Rightarrow> bool" where
  "IsSpace r = (r = 0x09 \<or> r = 0x0A \<or> r = 0x0B \<or> r = 0x0C \<or> r = 0x0D \<or> r = 0x20
     \<or> r = 0x85 \<or> r = 0xA0 \<or> r = 0x1680 \<or> (0x2000 \<le> r \<and> r \<le> 0x200A)
     \<or> r = 0x2028 \<or> r = 0x2029 \<or> r = 0x202F \<or> r = 0x205F \<or> r = 0x3000)"

text \<open>\<open>strings.TrimSpace\<close>, \<open>strings.HasPrefix\<close>, \<open>strings.TrimPrefix\<close>, \<open>strings.TrimSuffix\<close>.\<close>

definition TrimSpace :: "gostring \<Rightarrow> gostring" where
  "TrimSpace s = rev (dropWhile IsSpace (rev (dropWhile IsSpace s)))"

definition HasPrefix :: "gostring \<Rightarrow> gostring \<Rightarrow> bool" where
  "HasPrefix s p = (take (length p) s = p)"

definition TrimPrefix :: "gostring \<Rightarrow> gostring \<Rightarrow> gostring" where
  "TrimPrefix s p = (if HasPrefix s p then drop (length p) s else s)"

definition TrimSuffix :: "gostring \<Rightarrow> gostring \<Rightarrow> gostring" where
  "TrimSuffix s x = (if HasPrefix (rev s) (rev x) then take (length s - length x) s else s)"

text \<open>
  \<open>strings.ReplaceAll(s, old, new)\<close>: the non-overlapping occurrences of \<open>old\<close>, from the left.
  An empty \<open>old\<close> matches before every rune and at the end.
\<close>

function ReplaceAll :: "gostring \<Rightarrow> gostring \<Rightarrow> gostring \<Rightarrow> gostring" where
  "ReplaceAll [] old new = (if old = [] then new else [])"
| "ReplaceAll (c # cs) old new =
     (if old = [] then new @ c # ReplaceAll cs old new
      else if HasPrefix (c # cs) old then new @ ReplaceAll (drop (length old) (c # cs)) old new
      else c # ReplaceAll cs old new)"
  by pat_completeness auto
termination
  by (relation "measure (\<lambda>(s, old, new). length s)") auto

text \<open>\<open>spacingRe = [ \r\n\t]+\<close> and \<open>spacingRe.ReplaceAllString(s, " ")\<close>.\<close>

definition isSpacing :: "rune \<Rightarrow> bool" where
  "isSpacing r = (r = 0x20 \<or> r = 0x0D \<or> r = 0x0A \<or> r = 0x09)"

function spacingRe_ReplaceAllString :: "gostring \<Rightarrow> gostring" where
  "spacingRe_ReplaceAllString [] = []"
| "spacingRe_ReplaceAllString (c # cs) =
     (if isSpacing c then 0x20 # spacingRe_ReplaceAllString (dropWhile isSpacing cs)
      else c # spacingRe_ReplaceAllString cs)"
  by pat_completeness auto
termination
  by (relation "measure length") (auto simp: length_dropWhile_le less_Suc_eq_le)

text \<open>\<open>newlineRe = \n\n+\<close> and \<open>newlineRe.ReplaceAllString(s, "\n\n")\<close>.\<close>

function newlineRe_ReplaceAllString :: "gostring \<Rightarrow> gostring" where
  "newlineRe_ReplaceAllString [] = []"
| "newlineRe_ReplaceAllString [a] = [a]"
| "newlineRe_ReplaceAllString (a # b # cs) =
     (if a = 0x0A \<and> b = 0x0A
      then 0x0A # 0x0A # newlineRe_ReplaceAllString (dropWhile (\<lambda>r. r = 0x0A) cs)
      else a # newlineRe_ReplaceAllString (b # cs))"
  by pat_completeness auto
termination
  by (relation "measure length") (auto simp: length_dropWhile_le less_Suc_eq_le le_SucI)

text \<open>\<open>fmt.Sprintf("%d", i)\<close>.\<close>

function digits :: "nat \<Rightarrow> gostring" where
  "digits n = (if n < 10 then [0x30 + int n] else digits (n div 10) @ [0x30 + int (n mod 10)])"
  by pat_completeness auto
termination
  by (relation "measure id") auto

definition Itoa :: "int \<Rightarrow> gostring" where
  "Itoa i = (if i < 0 then 0x2D # digits (nat (- i)) else digits (nat i))"

text \<open>
  \<open>filepath.Base\<close> and \<open>filepath.Ext\<close> on a slash-separated path: the last element of the
  path after the trailing slashes are removed (\<open>.\<close> for the empty path, \<open>/\<close> for a path of
  slashes only), and the suffix of the last element that starts at its final dot.
\<close>

definition dropTrailingSlashes :: "gostring \<Rightarrow> gostring" where
  "dropTrailingSlashes p = rev (dropWhile (\<lambda>r. r = 0x2F) (rev p))"

definition lastElement :: "gostring \<Rightarrow> gostring" where
  "lastElement p = rev (takeWhile (\<lambda>r. r \<noteq> 0x2F) (rev p))"

definition Base :: "gostring \<Rightarrow> gostring" where
  "Base p =
     (if p = [] then str ''.''
      else if lastElement (dropTrailingSlashes p) = [] then str ''/''
      else lastElement (dropTrailingSlashes p))"

definition Ext :: "gostring \<Rightarrow> gostring" where
  "Ext p =
     (if List.member (lastElement p) 0x2E
      then 0x2E # rev (takeWhile (\<lambda>r. r \<noteq> 0x2E) (rev (lastElement p)))
      else [])"

section \<open>Data model\<close>

text \<open>
  The parsed tree of \<open>golang.org/x/net/html\<close>: a node has a type, an atom (the element
  kinds the renderer dispatches on, \<open>OtherAtom\<close> for every other element), its data, its
  attributes and its children in order (\<open>FirstChild\<close>, \<open>NextSibling\<close>, \<open>LastChild\<close>).
\<close>

datatype NodeType = ErrorNode | TextNode | DocumentNode | ElementNode | CommentNode | DoctypeNode

datatype Atom =
    Br | H1 | H2 | H3 | Blockquote | Div | Li | Img | A | P | Ul
  | Table | Tfoot | Th | Tr | Td | Pre | Style | Script | Head | Footer | Nav | OtherAtom

datatype Node = Node (Type: NodeType) (DataAtom: Atom) (Data: gostring)
  (Attr: "(gostring \<times> gostring) list") (Children: "Node list")

text \<open>
  A panic of the Go runtime is a value: the source never recovers from one, so a panic ends
  the render. Writes to a \<open>bytes.Buffer\<close> return a nil error, so every \<open>error\<close> the source
  passes on is nil and the only failures are panics.
\<close>

datatype panic =
  IndexOutOfRange | SliceBoundsOutOfRange | NegativeRepeatCount | HandleTableElementInactive

record Border =
  Left :: bool
  Right :: bool
  Top :: bool
  Bottom :: bool

record PrettyTablesOptions =
  AutoFormatHeader :: bool
  AutoWrapText :: bool
  ReflowDuringAutoWrap :: bool
  ColWidth :: int
  ColumnSeparator :: gostring
  RowSeparator :: gostring
  CenterSeparator :: gostring
  HeaderAlignment :: int
  FooterAlignment :: int
  Alignment :: int
  ColumnAlignment :: "int list"
  NewLine :: gostring
  HeaderLine :: bool
  RowLine :: bool
  AutoMergeCells :: bool
  Borders :: Border

record Options =
  PrettyTables :: bool
  PrettyTablesOptions :: "PrettyTablesOptions option"
  OmitLinks :: bool
  CitationStart :: int
  CitationMarkers :: bool
  LinkEmitFrequency :: int
  NumberedLinks :: bool
  EmitImagesAsLinks :: bool
  ImageMarkerPrefix :: gostring
  EmptyLinkPrefix :: gostring

text \<open>
  The table layout is the external package \<open>tablewriter\<close>: the renderer configures a writer
  from the options, sets header, footer and body and takes the rendered text. It is a
  parameter of the model, a function of these four values.
\<close>

type_synonym tablewriter =
  "PrettyTablesOptions option \<Rightarrow> gostring list \<Rightarrow> gostring list \<Rightarrow> gostring list list \<Rightarrow> gostring"

record citationLink =
  index :: int
  url :: gostring
  display :: gostring

text \<open>
  \<open>written\<close> is a ghost field, absent from the source and never read by the program: it
  records, in order, the citations that \<open>forceFlushGeminiCitations\<close> has written to a buffer.
\<close>

record linkAccumulatorType =
  emitParaCount :: int
  linkArray :: "citationLink list"
  flushedToIndex :: int
  tableNestLevel :: int
  written :: "citationLink list"

definition newLinkAccumulator :: linkAccumulatorType where
  "newLinkAccumulator =
     \<lparr>emitParaCount = 0, linkArray = [], flushedToIndex = - 1, tableNestLevel = 0, written = []\<rparr>"

record tableTraverseContext =
  header :: "gostring list"
  body :: "gostring list list"
  footer :: "gostring list"
  tmpRow :: int
  isInFooter :: bool

definition zeroTableCtx :: tableTraverseContext where
  "zeroTableCtx = \<lparr>header = [], body = [], footer = [], tmpRow = 0, isInFooter = False\<rparr>"

definition init :: "tableTraverseContext \<Rightarrow> tableTraverseContext" where
  "init t = t\<lparr>body := [], header := [], footer := [], isInFooter := False, tmpRow := 0\<rparr>"

text \<open>
  The traversal context. In \<open>html2gemini.go\<close> the accumulator is the package variable
  \<open>linkAccumulator\<close>, shared by every context of the process; the model threads its current
  value through the field \<open>linkAccumulator\<close>, and \<open>FromHTMLNode\<close> takes the value the variable
  has at the call and returns the value it has at the end. In the second variant of the
  module the accumulator is a field of the context itself.
\<close>

record 'o textifyTraverseContext =
  buf :: gostring
  prefix :: gostring
  tableCtx :: tableTraverseContext
  options :: 'o
  endsWithSpace :: bool
  justClosedDiv :: bool
  blockquoteLevel :: int
  lineLength :: int
  isPre :: bool
  linkAccumulator :: linkAccumulatorType


section \<open>The text emitter\<close>

text \<open>\<open>punctNoSpaceBefore\<close> and \<open>punctNoSpaceAfter\<close>.\<close>

definition punctNoSpaceBefore :: "rune \<Rightarrow> bool" where
  "punctNoSpaceBefore r = List.member (str ''.,;!?)]>'') r"

definition punctNoSpaceAfter :: "rune \<Rightarrow> bool" where
  "punctNoSpaceAfter r = List.member (str ''([<'') r"

definition maxLineLen :: int where
  "maxLineLen = 74"

text \<open>
  The three scans of \<open>breakLongLines\<close>. An index outside the slice panics:
  \<open>for i >= 0 && !unicode.IsSpace(runes[i]) { i-- }\<close>,
  \<open>for i < l && !unicode.IsSpace(runes[i]) { i++ }\<close> and
  \<open>for i < l && unicode.IsSpace(runes[i]) { i++ }\<close>.
\<close>

function scanDown :: "gostring \<Rightarrow> int \<Rightarrow> panic + int" where
  "scanDown runes i =
     (if 0 \<le> i then
        (if i < int (length runes) then
           (if IsSpace (runes ! nat i) then Inr i else scanDown runes (i - 1))
         else Inl IndexOutOfRange)
      else Inr i)"
  by pat_completeness auto
termination
  by (relation "measure (\<lambda>(runes, i). nat (i + 1))") auto

function scanUp :: "gostring \<Rightarrow> int \<Rightarrow> panic + int" where
  "scanUp runes i =
     (if i < int (length runes) then
        (if i < 0 then Inl IndexOutOfRange
         else if IsSpace (runes ! nat i) then Inr i else scanUp runes (i + 1))
      else Inr i)"
  by pat_completeness auto
termination
  by (relation "measure (\<lambda>(runes, i). nat (int (length runes) - i))") auto

function skipSpaces :: "gostring \<Rightarrow> int \<Rightarrow> panic + int" where
  "skipSpaces runes i =
     (if i < int (length runes) then
        (if i < 0 then Inl IndexOutOfRange
         else if IsSpace (runes ! nat i) then skipSpaces runes (i + 1) else Inr i)
      else Inr i)"
  by pat_completeness auto
termination
  by (relation "measure (\<lambda>(runes, i). nat (int (length runes) - i))") auto

declare scanDown.simps [simp del] scanUp.simps [simp del] skipSpaces.simps [simp del]

lemma scanDown_le: "scanDown runes i = Inr k \<Longrightarrow> k \<le> i"
  by (induction runes i rule: scanDown.induct)
     (subst (asm) (2) scanDown.simps, auto split: if_splits)

lemma scanDown_found:
  "scanDown runes i = Inr k \<Longrightarrow> 0 \<le> k \<Longrightarrow> k < int (length runes) \<and> IsSpace (runes ! nat k)"
  by (induction runes i rule: scanDown.induct)
     (subst (asm) (2) scanDown.simps, auto split: if_splits)

lemma scanDown_none:
  "scanDown runes i = Inr k \<Longrightarrow> k < 0 \<Longrightarrow> 0 \<le> i \<Longrightarrow> k = - 1 \<and> runes \<noteq> [] \<and> \<not> IsSpace (runes ! 0)"
proof (induction runes i rule: scanDown.induct)
  case (1 runes i)
  from "1.prems" have in_range: "i < int (length runes)" and nsp: "\<not> IsSpace (runes ! nat i)"
    by (subst (asm) scanDown.simps, auto split: if_splits)+
  from "1.prems" nsp in_range have rec: "scanDown runes (i - 1) = Inr k"
    by (subst (asm) scanDown.simps) (auto split: if_splits)
  show ?case
  proof (cases "i = 0")
    case True
    with rec have "k = - 1" by (subst (asm) scanDown.simps) auto
    with True nsp in_range show ?thesis by auto
  next
    case False
    with "1.prems" have "0 \<le> i - 1" by simp
    with "1.IH" "1.prems" nsp in_range rec show ?thesis by simp
  qed
qed

lemma scanUp_ge: "scanUp runes i = Inr k \<Longrightarrow> i \<le> k"
  by (induction runes i rule: scanUp.induct)
     (subst (asm) (2) scanUp.simps, auto split: if_splits)

lemma scanUp_step:
  "scanUp runes i = Inr k \<Longrightarrow> i < int (length runes) \<Longrightarrow> \<not> IsSpace (runes ! nat i) \<Longrightarrow> i < k"
  using scanUp_ge [of runes "i + 1" k]
  by (subst (asm) scanUp.simps) (auto split: if_splits)

lemma skipSpaces_ge: "skipSpaces runes i = Inr k \<Longrightarrow> i \<le> k"
  by (induction runes i rule: skipSpaces.induct)
     (subst (asm) (2) skipSpaces.simps, auto split: if_splits)

lemma skipSpaces_step:
  "skipSpaces runes i = Inr k \<Longrightarrow> i < int (length runes) \<Longrightarrow> IsSpace (runes ! nat i) \<Longrightarrow> i < k"
  using skipSpaces_ge [of runes "i + 1" k]
  by (subst (asm) skipSpaces.simps) (auto split: if_splits)

text \<open>
  One round of the loop \<open>for l+existing > maxLineLen\<close> of \<open>breakLongLines\<close>: the line cut off
  (with its newline) and the index where the rest starts. \<open>runes[:i]\<close> and \<open>runes[i:]\<close> panic
  outside \<open>0..l\<close>.
\<close>

definition breakStep :: "gostring \<Rightarrow> int \<Rightarrow> panic + (gostring \<times> int)" where
  "breakStep runes existing =
     (case scanDown runes (maxLineLen - existing) of
        Inl e \<Rightarrow> Inl e
      | Inr i0 \<Rightarrow>
         (case (if i0 = - 1 then scanUp runes (maxLineLen - existing) else Inr i0) of
            Inl e \<Rightarrow> Inl e
          | Inr i \<Rightarrow>
             if i < 0 \<or> int (length runes) < i then Inl SliceBoundsOutOfRange
             else (case skipSpaces runes i of
                     Inl e \<Rightarrow> Inl e
                   | Inr j \<Rightarrow>
                      if j < 0 \<or> int (length runes) < j then Inl SliceBoundsOutOfRange
                      else Inr (take (nat i) runes @ str ''\<newline>'', j))))"

lemma breakStep_progress:
  assumes "breakStep runes existing = Inr (line, j)"
  shows "0 < j \<and> j \<le> int (length runes)"
proof -
  from assms obtain i0 i where
    d: "scanDown runes (maxLineLen - existing) = Inr i0" and
    u: "(if i0 = - 1 then scanUp runes (maxLineLen - existing) else Inr i0) = Inr i" and
    i: "0 \<le> i" "i \<le> int (length runes)" and
    s: "skipSpaces runes i = Inr j" and j: "0 \<le> j" "j \<le> int (length runes)"
    by (auto simp: breakStep_def split: sum.splits if_splits)
  have "0 < j"
  proof (cases "i0 = - 1")
    case False
    with u have "i = i0" by simp
    with d i scanDown_found [of runes _ i0] have "i < int (length runes)" "IsSpace (runes ! nat i)"
      by auto
    with s skipSpaces_step [of runes i j] i show ?thesis by simp
  next
    case True
    with u have up: "scanUp runes (maxLineLen - existing) = Inr i" by simp
    show ?thesis
    proof (cases "0 \<le> maxLineLen - existing")
      case False
      with d have "i0 = maxLineLen - existing" by (subst (asm) scanDown.simps) simp
      with True have "maxLineLen - existing = - 1" by simp
      with up have False by (subst (asm) scanUp.simps) (auto split: if_splits)
      then show ?thesis ..
    next
      case nonneg: True
      with d True scanDown_none [of runes "maxLineLen - existing" i0]
      have ne: "runes \<noteq> []" and n0: "\<not> IsSpace (runes ! 0)" by auto
      have "0 < i"
      proof (cases "maxLineLen - existing = 0")
        case True
        with up ne n0 scanUp_step [of runes 0 i] show ?thesis by simp
      next
        case False
        with nonneg scanUp_ge [OF up] show ?thesis by simp
      qed
      with skipSpaces_ge [OF s] show ?thesis by simp
    qed
  qed
  with j show ?thesis by simp
qed

function breakLoop :: "gostring list \<Rightarrow> gostring \<Rightarrow> int \<Rightarrow> panic + gostring list" where
  "breakLoop ret runes existing =
     (if maxLineLen < int (length runes) + existing then
        (case breakStep runes existing of
           Inl e \<Rightarrow> Inl e
         | Inr (line, j) \<Rightarrow> breakLoop (ret @ [line]) (drop (nat j) runes) 0)
      else Inr (if runes \<noteq> [] then ret @ [runes] else ret))"
  by pat_completeness auto
termination
proof (relation "measure (\<lambda>(ret, runes, existing). length runes)", goal_cases)
  case 1
  show ?case by simp
next
  case (2 ret runes existing x2 line j)
  with breakStep_progress [of runes existing line j] show ?case by auto
qed


declare breakLoop.simps [simp del]

text \<open>\<open>breakLongLines\<close>: lines are only broken inside a blockquote.\<close>

definition breakLongLines ::
  "gostring \<Rightarrow> ('o, 'z) textifyTraverseContext_scheme \<Rightarrow> panic + gostring list" where
  "breakLongLines data ctx =
     (if blockquoteLevel ctx = 0 then Inr [data]
      else if maxLineLen \<le> lineLength ctx then breakLoop [str ''\<newline>''] data 0
      else breakLoop [] data (lineLength ctx))"

text \<open>
  The inner loop of \<open>emit\<close>, \<open>for _, c := range line\<close>: every rune is written and counted, a
  newline resets the line length and is followed by the line prefix when there is one.
\<close>

fun writeRunes ::
  "gostring \<Rightarrow> ('o, 'z) textifyTraverseContext_scheme \<Rightarrow> ('o, 'z) textifyTraverseContext_scheme" where
  "writeRunes [] ctx = ctx"
| "writeRunes (c # cs) ctx =
     writeRunes cs
       (if c = 0x0A
        then ctx\<lparr>buf := buf ctx @ [c] @ (if prefix ctx \<noteq> [] then prefix ctx else []), lineLength := 0\<rparr>
        else ctx\<lparr>buf := buf ctx @ [c], lineLength := lineLength ctx + 1\<rparr>)"

text \<open>
  What the loop writes for a line: its runes, with the line prefix after every newline.
\<close>

definition withPrefix :: "gostring \<Rightarrow> gostring \<Rightarrow> gostring" where
  "withPrefix p line = concat (map (\<lambda>c. if c = 0x0A then c # p else [c]) line)"

text \<open>
  The body of the outer loop, for one line: \<open>runes[0]\<close> and \<open>runes[len(runes)-1]\<close> panic on an
  empty line.
\<close>

definition emitLine ::
  "gostring \<Rightarrow> ('o, 'z) textifyTraverseContext_scheme \<Rightarrow> panic + ('o, 'z) textifyTraverseContext_scheme" where
  "emitLine line ctx =
     (case line of
        [] \<Rightarrow> Inl IndexOutOfRange
      | r # rs \<Rightarrow>
         (let startsWithSpace = (IsSpace r \<or> punctNoSpaceBefore r);
              ctx1 = (if \<not> startsWithSpace \<and> \<not> endsWithSpace ctx
                      then ctx\<lparr>buf := buf ctx @ str '' '', lineLength := lineLength ctx + 1\<rparr>
                      else ctx);
              ctx2 = ctx1\<lparr>endsWithSpace := (IsSpace (last line) \<or> punctNoSpaceAfter (last line))\<rparr>
          in Inr (writeRunes line ctx2)))"

fun emitLines ::
  "gostring list \<Rightarrow> ('o, 'z) textifyTraverseContext_scheme \<Rightarrow> panic + ('o, 'z) textifyTraverseContext_scheme" where
  "emitLines [] ctx = Inr ctx"
| "emitLines (line # lines) ctx =
     (case emitLine line ctx of Inl e \<Rightarrow> Inl e | Inr ctx' \<Rightarrow> emitLines lines ctx')"

definition emit ::
  "gostring \<Rightarrow> ('o, 'z) textifyTraverseContext_scheme \<Rightarrow> panic + ('o, 'z) textifyTraverseContext_scheme" where
  "emit data ctx =
     (if data = [] then Inr ctx
      else (case breakLongLines data ctx of Inl e \<Rightarrow> Inl e | Inr lines \<Rightarrow> emitLines lines ctx))"

section \<open>The citation accumulator\<close>

definition normalizeHrefLink :: "gostring \<Rightarrow> gostring" where
  "normalizeHrefLink link = TrimPrefix (TrimSpace link) (str ''mailto:'')"

text \<open>
  A Go \<open>int\<close> has 64 bits: the sum of two of them wraps around, in two's complement.
\<close>

definition wrap64 :: "int \<Rightarrow> int" where
  "wrap64 i = (i + 2 ^ 63) mod 2 ^ 64 - 2 ^ 63"

definition formatGeminiCitation :: "int \<Rightarrow> bool \<Rightarrow> gostring" where
  "formatGeminiCitation idx showMarker =
     (if showMarker then str ''['' @ Itoa idx @ str '']'' else [])"

text \<open>
  \<open>addGeminiCitation\<close> returns the marker and registers the citation. \<open>url[0:1]\<close> panics on
  the empty string; the index is the sum \<open>len(linkArray) + CitationStart\<close> of two \<open>int\<close>s.
\<close>

definition addGeminiCitation ::
  "gostring \<Rightarrow> gostring \<Rightarrow> ('a Options_scheme, 'z) textifyTraverseContext_scheme
     \<Rightarrow> panic + (gostring \<times> ('a Options_scheme, 'z) textifyTraverseContext_scheme)" where
  "addGeminiCitation u d ctx =
     (if u = [] then Inl SliceBoundsOutOfRange
      else if take 1 u = str ''#'' then Inr ([], ctx)
      else (let citation = \<lparr>index = wrap64 (int (length (linkArray (linkAccumulator ctx))) + CitationStart (options ctx)),
                             url = u, display = d\<rparr>
            in Inr (formatGeminiCitation (index citation) (CitationMarkers (options ctx)),
                    ctx\<lparr>linkAccumulator := (linkAccumulator ctx)
                          \<lparr>linkArray := linkArray (linkAccumulator ctx) @ [citation]\<rparr>\<rparr>)))"

definition ResetCitationCounters ::
  "('o, 'z) textifyTraverseContext_scheme \<Rightarrow> ('o, 'z) textifyTraverseContext_scheme" where
  "ResetCitationCounters ctx =
     ctx\<lparr>linkAccumulator := (linkAccumulator ctx)
           \<lparr>flushedToIndex := int (length (linkArray (linkAccumulator ctx))) - 1,
            emitParaCount := 0\<rparr>\<rparr>"

text \<open>
  The loop of \<open>forceFlushGeminiCitations\<close>, \<open>for i, link := range linkAccumulator.linkArray\<close>,
  from position \<open>i\<close> on: the link line is written when \<open>i > flushedToIndex\<close> (and the link is
  added to the ghost field).
\<close>

fun flushLinks ::
  "int \<Rightarrow> citationLink list \<Rightarrow> ('a Options_scheme, 'z) textifyTraverseContext_scheme
     \<Rightarrow> ('a Options_scheme, 'z) textifyTraverseContext_scheme" where
  "flushLinks i [] ctx = ctx"
| "flushLinks i (link # links) ctx =
     flushLinks (i + 1) links
       (if flushedToIndex (linkAccumulator ctx) < i
        then ctx\<lparr>buf := buf ctx @ str ''=> '' @ url link @ str '' ''
                      @ formatGeminiCitation (index link) (NumberedLinks (options ctx)) @ str '' ''
                      @ display link @ str ''\<newline>'',
                  linkAccumulator := (linkAccumulator ctx)
                      \<lparr>written := written (linkAccumulator ctx) @ [link]\<rparr>\<rparr>
        else ctx)"

definition forceFlushGeminiCitations ::
  "('a Options_scheme, 'z) textifyTraverseContext_scheme
     \<Rightarrow> ('a Options_scheme, 'z) textifyTraverseContext_scheme" where
  "forceFlushGeminiCitations ctx =
     (if 0 < tableNestLevel (linkAccumulator ctx) then ctx
      else (let ctx1 = ctx\<lparr>buf := buf ctx @ str ''\<newline>'' @ str ''\<newline>''\<rparr>;
                ctx2 = flushLinks 0 (linkArray (linkAccumulator ctx1)) ctx1;
                ctx3 = ctx2\<lparr>buf := buf ctx2 @ str ''\<newline>''\<rparr>
            in ResetCitationCounters ctx3))"

definition emitGeminiCitations ::
  "('a Options_scheme, 'z) textifyTraverseContext_scheme
     \<Rightarrow> ('a Options_scheme, 'z) textifyTraverseContext_scheme" where
  "emitGeminiCitations ctx =
     (if flushedToIndex (linkAccumulator ctx) < int (length (linkArray (linkAccumulator ctx)))
      then forceFlushGeminiCitations ctx
      else ctx)"

definition FlushCitations ::
  "('a Options_scheme, 'z) textifyTraverseContext_scheme
     \<Rightarrow> ('a Options_scheme, 'z) textifyTraverseContext_scheme" where
  "FlushCitations ctx = emitGeminiCitations ctx"

definition CheckFlushCitations ::
  "('a Options_scheme, 'z) textifyTraverseContext_scheme
     \<Rightarrow> ('a Options_scheme, 'z) textifyTraverseContext_scheme" where
  "CheckFlushCitations ctx =
     (if LinkEmitFrequency (options ctx) < emitParaCount (linkAccumulator ctx)
         \<and> flushedToIndex (linkAccumulator ctx) + 1 < int (length (linkArray (linkAccumulator ctx)))
      then FlushCitations ctx
      else ctx\<lparr>linkAccumulator := (linkAccumulator ctx)
                 \<lparr>emitParaCount := emitParaCount (linkAccumulator ctx) + 1\<rparr>\<rparr>)"

section \<open>The tree walker\<close>

text \<open>
  The source returns early on an error or a panic of a callee; \<open>andThen\<close> is that sequencing.
\<close>

definition andThen :: "panic + 'a \<Rightarrow> ('a \<Rightarrow> panic + 'b) \<Rightarrow> panic + 'b" where
  "andThen m f = (case m of Inl e \<Rightarrow> Inl e | Inr x \<Rightarrow> f x)"

fun attrLoop :: "(gostring \<times> gostring) list \<Rightarrow> gostring \<Rightarrow> gostring" where
  "attrLoop [] attrName = []"
| "attrLoop ((k, v) # attrs) attrName = (if k = attrName then v else attrLoop attrs attrName)"

definition getAttrVal :: "Node \<Rightarrow> gostring \<Rightarrow> gostring" where
  "getAttrVal node attrName = attrLoop (Attr node) attrName"

text \<open>\<open>strings.Repeat\<close> panics on a negative count.\<close>

definition Repeat :: "gostring \<Rightarrow> int \<Rightarrow> panic + gostring" where
  "Repeat s n = (if n < 0 then Inl NegativeRepeatCount else Inr (concat (replicate (nat n) s)))"

text \<open>
  \<open>handleElement\<close>, \<open>paragraphHandler\<close> and \<open>handleTableElement\<close> recurse only through
  \<open>ctx.traverseChildren(node)\<close> and \<open>ctx.renderEachChild(node)\<close> on their own node. The model
  passes these two as the parameters \<open>traverseChildren\<close> and \<open>renderEachChild\<close>, so that the
  three are plain definitions and the recursion is that of \<open>traverse\<close> below.
\<close>

definition paragraphHandler ::
  "('a Options_scheme textifyTraverseContext \<Rightarrow> panic + 'a Options_scheme textifyTraverseContext)
   \<Rightarrow> 'a Options_scheme textifyTraverseContext \<Rightarrow> panic + 'a Options_scheme textifyTraverseContext" where
  "paragraphHandler traverseChildren ctx =
     andThen (emit (str ''\<newline>\<newline>'') (CheckFlushCitations ctx)) (\<lambda>ctx.
     andThen (traverseChildren ctx) (\<lambda>ctx.
     emit (str ''\<newline>\<newline>'') ctx))"

definition handleTableElement ::
  "tablewriter
   \<Rightarrow> ('a Options_scheme textifyTraverseContext \<Rightarrow> panic + 'a Options_scheme textifyTraverseContext)
   \<Rightarrow> ('a Options_scheme textifyTraverseContext \<Rightarrow> panic + (gostring \<times> 'a Options_scheme textifyTraverseContext))
   \<Rightarrow> Node \<Rightarrow> 'a Options_scheme textifyTraverseContext \<Rightarrow> panic + 'a Options_scheme textifyTraverseContext" where
  "handleTableElement tw traverseChildren renderEachChild node ctx =
     (if \<not> PrettyTables (options ctx) then Inl HandleTableElementInactive
      else case DataAtom node of
        Table \<Rightarrow>
          andThen (if tableNestLevel (linkAccumulator ctx) = 0
                   then emit (str ''\<newline>\<newline>```\<newline>'') ctx
                   else emit (str ''\<newline>\<newline>'') ctx) (\<lambda>ctx.
          andThen (traverseChildren
                     (ctx\<lparr>linkAccumulator := (linkAccumulator ctx)
                            \<lparr>tableNestLevel := tableNestLevel (linkAccumulator ctx) + 1\<rparr>,
                          tableCtx := init (tableCtx ctx)\<rparr>)) (\<lambda>ctx.
          andThen (emit (tw (PrettyTablesOptions (options ctx)) (header (tableCtx ctx))
                          (footer (tableCtx ctx)) (body (tableCtx ctx))) ctx) (\<lambda>ctx.
          (let ctx = ctx\<lparr>linkAccumulator := (linkAccumulator ctx)
                           \<lparr>tableNestLevel := tableNestLevel (linkAccumulator ctx) - 1\<rparr>\<rparr>
           in if tableNestLevel (linkAccumulator ctx) = 0
              then emit (str ''```\<newline>\<newline>'') ctx
              else emit (str ''\<newline>\<newline>'') ctx))))
      | Tfoot \<Rightarrow>
          andThen (traverseChildren (ctx\<lparr>tableCtx := (tableCtx ctx)\<lparr>isInFooter := True\<rparr>\<rparr>)) (\<lambda>ctx.
          Inr (ctx\<lparr>tableCtx := (tableCtx ctx)\<lparr>isInFooter := False\<rparr>\<rparr>))
      | Tr \<Rightarrow>
          andThen (traverseChildren (ctx\<lparr>tableCtx := (tableCtx ctx)\<lparr>body := body (tableCtx ctx) @ [[]]\<rparr>\<rparr>)) (\<lambda>ctx.
          Inr (ctx\<lparr>tableCtx := (tableCtx ctx)\<lparr>tmpRow := tmpRow (tableCtx ctx) + 1\<rparr>\<rparr>))
      | Th \<Rightarrow>
          andThen (renderEachChild ctx) (\<lambda>(res, ctx).
          Inr (ctx\<lparr>tableCtx := (tableCtx ctx)\<lparr>header := header (tableCtx ctx) @ [res]\<rparr>\<rparr>))
      | Td \<Rightarrow>
          andThen (renderEachChild ctx) (\<lambda>(res, ctx).
          if isInFooter (tableCtx ctx)
          then Inr (ctx\<lparr>tableCtx := (tableCtx ctx)\<lparr>footer := footer (tableCtx ctx) @ [res]\<rparr>\<rparr>)
          else if tmpRow (tableCtx ctx) < 0 \<or> int (length (body (tableCtx ctx))) \<le> tmpRow (tableCtx ctx)
          then Inl IndexOutOfRange
          else Inr (ctx\<lparr>tableCtx := (tableCtx ctx)
                     \<lparr>body := (body (tableCtx ctx))
                        [nat (tmpRow (tableCtx ctx)) :=
                           body (tableCtx ctx) ! nat (tmpRow (tableCtx ctx)) @ [res]]\<rparr>\<rparr>))
      | _ \<Rightarrow> Inr ctx)"

text \<open>The display text of an image: its \<open>alt\<close>, else the stem of the file name of its \<open>src\<close>.\<close>

definition imgAltText :: "'a Options_scheme \<Rightarrow> Node \<Rightarrow> gostring" where
  "imgAltText opts node =
     (let altText = (if getAttrVal node (str ''alt'') \<noteq> [] then getAttrVal node (str ''alt'')
                     else if getAttrVal node (str ''src'') \<noteq> []
                     then (let fileName = Base (getAttrVal node (str ''src''))
                           in TrimSuffix fileName (Ext fileName))
                     else []);
          altText = str ''['' @ ImageMarkerPrefix opts @ str '' '' @ altText @ str '']'';
          altText = ReplaceAll altText (str ''_'') (str '' '');
          altText = ReplaceAll altText (str ''-'') (str '' '')
      in ReplaceAll altText (str ''  '') (str '' ''))"

text \<open>
  The citation of an anchor or an image: registered when the attribute is not empty, is not
  empty after \<open>normalizeHrefLink\<close>, links are not omitted and the text differs from the link.
\<close>

definition citeAttr ::
  "gostring \<Rightarrow> gostring \<Rightarrow> ('a Options_scheme, 'z) textifyTraverseContext_scheme
   \<Rightarrow> panic + (gostring \<times> ('a Options_scheme, 'z) textifyTraverseContext_scheme)" where
  "citeAttr attrVal text ctx =
     (if attrVal \<noteq> [] then
        (let attrVal = normalizeHrefLink attrVal
         in if \<not> OmitLinks (options ctx) \<and> attrVal \<noteq> [] \<and> text \<noteq> attrVal
            then addGeminiCitation attrVal text ctx
            else Inr ([], ctx))
      else Inr ([], ctx))"

definition headingPrefix :: "Atom \<Rightarrow> gostring" where
  "headingPrefix a = (if a = H1 then str ''# '' else if a = H2 then str ''## '' else str ''### '')"

definition handleElement ::
  "tablewriter
   \<Rightarrow> ('a Options_scheme textifyTraverseContext \<Rightarrow> panic + 'a Options_scheme textifyTraverseContext)
   \<Rightarrow> ('a Options_scheme textifyTraverseContext \<Rightarrow> panic + (gostring \<times> 'a Options_scheme textifyTraverseContext))
   \<Rightarrow> Node \<Rightarrow> 'a Options_scheme textifyTraverseContext \<Rightarrow> panic + 'a Options_scheme textifyTraverseContext" where
  "handleElement tw traverseChildren renderEachChild node ctx0 =
     (let ctx = ctx0\<lparr>justClosedDiv := False\<rparr>;
          heading = (\<lambda>ctx.
            andThen (emit (str ''\<newline>'' @ headingPrefix (DataAtom node)) (FlushCitations ctx)) (\<lambda>ctx.
            andThen (traverseChildren ctx) (\<lambda>ctx.
            emit (str ''\<newline>'') ctx)));
          tableElement = (\<lambda>ctx.
            if PrettyTables (options ctx)
            then handleTableElement tw traverseChildren renderEachChild node ctx
            else if DataAtom node = Table
            then andThen (emit (str ''\<newline>\<newline>'' @ [0x229E] @ str '' table '' @ [0x229E] @ str ''\<newline>\<newline>'') ctx)
                   (\<lambda>ctx. paragraphHandler traverseChildren ctx)
            else andThen (if DataAtom node = Tr then emit (str ''\<newline>'') ctx else Inr ctx)
                   (\<lambda>ctx. traverseChildren ctx))
      in case DataAtom node of
        Br \<Rightarrow> emit (str ''\<newline>'') ctx
      | H1 \<Rightarrow> heading ctx
      | H2 \<Rightarrow> heading ctx
      | H3 \<Rightarrow> heading ctx
      | Blockquote \<Rightarrow>
          (let ctx = FlushCitations ctx;
               ctx = ctx\<lparr>blockquoteLevel := blockquoteLevel ctx + 1\<rparr>
           in andThen (Repeat (str ''>'') (blockquoteLevel ctx)) (\<lambda>marks.
              andThen (emit (str ''\<newline>'') (ctx\<lparr>prefix := marks @ str '' ''\<rparr>)) (\<lambda>ctx.
              andThen (if blockquoteLevel ctx = 1 then emit (str ''\<newline>'') ctx else Inr ctx) (\<lambda>ctx.
              andThen (traverseChildren ctx) (\<lambda>ctx.
              (let ctx = ctx\<lparr>blockquoteLevel := blockquoteLevel ctx - 1\<rparr>
               in andThen (Repeat (str ''>'') (blockquoteLevel ctx)) (\<lambda>marks.
                  emit (str ''\<newline>\<newline>'')
                    (ctx\<lparr>prefix := (if 0 < blockquoteLevel ctx then marks @ str '' '' else marks)\<rparr>))))))))
      | Div \<Rightarrow>
          andThen (if 0 < lineLength ctx then emit (str ''\<newline>'') ctx else Inr ctx) (\<lambda>ctx.
          andThen (traverseChildren ctx) (\<lambda>ctx.
          andThen (if \<not> justClosedDiv ctx then emit (str ''\<newline>'') ctx else Inr ctx) (\<lambda>ctx.
          Inr (ctx\<lparr>justClosedDiv := True\<rparr>))))
      | Li \<Rightarrow>
          andThen (emit (str ''* '') ctx) (\<lambda>ctx.
          andThen (traverseChildren ctx) (\<lambda>ctx.
          emit (str ''\<newline>'') ctx))
      | Img \<Rightarrow>
          (let altText = imgAltText (options ctx) node
           in if EmitImagesAsLinks (options ctx)
              then andThen (emit altText ctx) (\<lambda>ctx.
                   andThen (citeAttr (getAttrVal node (str ''src'')) altText ctx) (\<lambda>(hrefLink, ctx).
                   emit hrefLink ctx))
              else emit altText ctx)
      | A \<Rightarrow>
          (let linkText = (case Children node of
                             [c] \<Rightarrow> if Type c = TextNode then Data c else []
                           | _ \<Rightarrow> [])
           in andThen (traverseChildren ctx) (\<lambda>ctx.
              andThen (case Children node of
                         [img] \<Rightarrow> if DataAtom img = Img
                                  then (let linkText = EmptyLinkPrefix (options ctx)
                                        in andThen (emit (str '' '' @ linkText) ctx)
                                             (\<lambda>ctx. Inr (linkText, ctx)))
                                  else Inr (linkText, ctx)
                       | _ \<Rightarrow> Inr (linkText, ctx)) (\<lambda>(linkText, ctx).
              andThen (citeAttr (getAttrVal node (str ''href'')) linkText ctx) (\<lambda>(hrefLink, ctx).
              emit hrefLink ctx))))
      | P \<Rightarrow> paragraphHandler traverseChildren ctx
      | Ul \<Rightarrow> paragraphHandler traverseChildren ctx
      | Table \<Rightarrow> tableElement ctx
      | Tfoot \<Rightarrow> tableElement ctx
      | Th \<Rightarrow> tableElement ctx
      | Tr \<Rightarrow> tableElement ctx
      | Td \<Rightarrow> tableElement ctx
      | Pre \<Rightarrow>
          andThen (emit (str ''```\<newline>'') ctx) (\<lambda>ctx.
          andThen (traverseChildren (ctx\<lparr>isPre := True\<rparr>)) (\<lambda>ctx.
          emit (str ''\<newline>```'') (ctx\<lparr>isPre := False\<rparr>)))
      | Style \<Rightarrow> Inr ctx
      | Script \<Rightarrow> Inr ctx
      | Head \<Rightarrow> Inr ctx
      | _ \<Rightarrow> traverseChildren ctx)"

text \<open>
  The body of \<open>FromHTMLNode\<close> for given options, with the traversal of the document as a
  parameter: a new context, the traversal, the final flush and the normalisation of the
  buffer. It takes the value of the package variable \<open>linkAccumulator\<close> and returns the text
  with the value of the variable at the end.
\<close>

definition newContext :: "'o \<Rightarrow> linkAccumulatorType \<Rightarrow> 'o textifyTraverseContext" where
  "newContext opts g =
     \<lparr>buf = [], prefix = [], tableCtx = zeroTableCtx, options = opts, endsWithSpace = False,
      justClosedDiv = False, blockquoteLevel = 0, lineLength = 0, isPre = False,
      linkAccumulator = g\<rparr>"

definition normalizeText :: "gostring \<Rightarrow> gostring" where
  "normalizeText s =
     TrimSpace (newlineRe_ReplaceAllString (ReplaceAll s (str ''\<newline> '') (str ''\<newline>'')))"

definition FromHTMLNode_body ::
  "('a Options_scheme textifyTraverseContext \<Rightarrow> panic + 'a Options_scheme textifyTraverseContext)
   \<Rightarrow> 'a Options_scheme \<Rightarrow> linkAccumulatorType \<Rightarrow> panic + (gostring \<times> linkAccumulatorType)" where
  "FromHTMLNode_body traverseDoc opts g =
     andThen (traverseDoc (newContext opts g)) (\<lambda>ctx.
     (let ctx = forceFlushGeminiCitations ctx
      in Inr (normalizeText (buf ctx), linkAccumulator ctx)))"

text \<open>
  \<open>traverse\<close>, the loop of \<open>traverseChildren\<close> over the children of a node, and the loop of
  \<open>renderEachChild\<close>, which renders every child with \<open>FromHTMLNode(c, ctx.options)\<close> and joins
  the texts with newlines.
\<close>

fun traverse ::
    "tablewriter \<Rightarrow> Node \<Rightarrow> 'a Options_scheme textifyTraverseContext
     \<Rightarrow> panic + 'a Options_scheme textifyTraverseContext"
  and traverseNodes ::
    "tablewriter \<Rightarrow> Node list \<Rightarrow> 'a Options_scheme textifyTraverseContext
     \<Rightarrow> panic + 'a Options_scheme textifyTraverseContext"
  and renderNodes ::
    "tablewriter \<Rightarrow> Node list \<Rightarrow> gostring \<Rightarrow> 'a Options_scheme textifyTraverseContext
     \<Rightarrow> panic + (gostring \<times> 'a Options_scheme textifyTraverseContext)"
where
  "traverse tw (Node ty a d attrs cs) ctx =
     (case ty of
        TextNode \<Rightarrow>
          emit (if isPre ctx then d else TrimSpace (spacingRe_ReplaceAllString d)) ctx
      | ElementNode \<Rightarrow>
          handleElement tw (\<lambda>ctx. traverseNodes tw cs ctx) (\<lambda>ctx. renderNodes tw cs [] ctx)
            (Node ty a d attrs cs) ctx
      | _ \<Rightarrow> traverseNodes tw cs ctx)"
| "traverseNodes tw [] ctx = Inr ctx"
| "traverseNodes tw (c # cs) ctx =
     (case traverse tw c ctx of Inl e \<Rightarrow> Inl e | Inr ctx' \<Rightarrow> traverseNodes tw cs ctx')"
| "renderNodes tw [] b ctx = Inr (b, ctx)"
| "renderNodes tw (c # cs) b ctx =
     (case FromHTMLNode_body (\<lambda>ctx. traverse tw c ctx) (options ctx) (linkAccumulator ctx) of
        Inl e \<Rightarrow> Inl e
      | Inr (s, g) \<Rightarrow>
          renderNodes tw cs (b @ s @ (if cs \<noteq> [] then str ''\<newline>'' else []))
            (ctx\<lparr>linkAccumulator := g\<rparr>))"

text \<open>
  \<open>FromHTMLNode(doc, o...)\<close>: the first of the options given, else the zero options with
  \<open>CitationStart = 1\<close>.
\<close>

definition zeroOptions :: Options where
  "zeroOptions =
     \<lparr>PrettyTables = False, PrettyTablesOptions = None, OmitLinks = False, CitationStart = 0,
      CitationMarkers = False, LinkEmitFrequency = 0, NumberedLinks = False,
      EmitImagesAsLinks = False, ImageMarkerPrefix = [], EmptyLinkPrefix = []\<rparr>"

definition givenOptions :: "Options list \<Rightarrow> Options" where
  "givenOptions os = (case os of [] \<Rightarrow> zeroOptions\<lparr>CitationStart := 1\<rparr> | opts # _ \<Rightarrow> opts)"

definition FromHTMLNode ::
  "tablewriter \<Rightarrow> Node \<Rightarrow> Options list \<Rightarrow> linkAccumulatorType
   \<Rightarrow> panic + (gostring \<times> linkAccumulatorType)" where
  "FromHTMLNode tw doc os g = FromHTMLNode_body (traverse tw doc) (givenOptions os) g"

text \<open>
  The buffer of \<open>FromHTMLNode\<close> after the final flush, \<open>ctx.buf.String()\<close>: the string that the
  last statement of the function normalises.
\<close>

definition FromHTMLNode_buffer ::
  "tablewriter \<Rightarrow> Node \<Rightarrow> Options list \<Rightarrow> linkAccumulatorType \<Rightarrow> panic + gostring" where
  "FromHTMLNode_buffer tw doc os g =
     andThen (traverse tw doc (newContext (givenOptions os) g)) (\<lambda>ctx.
     Inr (buf (forceFlushGeminiCitations ctx)))"

section \<open>The second variant of the module\<close>

text \<open>
  The repository holds a second variant of the module, in which the accumulator is a field
  of the context, \<open>emit\<close> does not break lines, \<open>addGeminiCitation\<close> escapes spaces, list
  items and paragraphs are probed in a scratch context, and \<open>FromHTMLNode\<close> takes the context
  (by value) and tidies blockquotes at the end. Its definitions carry the suffix \<open>2\<close>; it
  shares \<open>CheckFlushCitations\<close>, \<open>FlushCitations\<close>, \<open>ResetCitationCounters\<close>,
  \<open>forceFlushGeminiCitations\<close>, \<open>emitGeminiCitations\<close>, \<open>normalizeHrefLink\<close>,
  \<open>formatGeminiCitation\<close> and \<open>getAttrVal\<close> with the first, text for text.
\<close>

record Options2 = Options +
  ListItemToLinkWordThreshold :: int

definition zeroOptions2 :: Options2 where
  "zeroOptions2 =
     \<lparr>PrettyTables = False, PrettyTablesOptions = None, OmitLinks = False, CitationStart = 0,
      CitationMarkers = False, LinkEmitFrequency = 0, NumberedLinks = False,
      EmitImagesAsLinks = False, ImageMarkerPrefix = [], EmptyLinkPrefix = [],
      ListItemToLinkWordThreshold = 0\<rparr>"


definition zeroContext :: "Options2 textifyTraverseContext" where
  "zeroContext =
     newContext zeroOptions2
       \<lparr>emitParaCount = 0, linkArray = [], flushedToIndex = 0, tableNestLevel = 0, written = []\<rparr>"

definition emit2 ::
  "gostring \<Rightarrow> ('o, 'z) textifyTraverseContext_scheme \<Rightarrow> panic + ('o, 'z) textifyTraverseContext_scheme" where
  "emit2 data ctx = (if data = [] then Inr ctx else emitLines [data] ctx)"

definition addGeminiCitation2 ::
  "gostring \<Rightarrow> gostring \<Rightarrow> ('a Options_scheme, 'z) textifyTraverseContext_scheme
     \<Rightarrow> panic + (gostring \<times> ('a Options_scheme, 'z) textifyTraverseContext_scheme)" where
  "addGeminiCitation2 u d ctx =
     (if u = [] then Inl SliceBoundsOutOfRange
      else if take 1 u = str ''#'' then Inr ([], ctx)
      else (let citation = \<lparr>index = wrap64 (int (length (linkArray (linkAccumulator ctx))) + CitationStart (options ctx)),
                             url = u, display = d\<rparr>;
                citation = (if List.member (url citation) 0x20
                            then citation\<lparr>url := ReplaceAll (url citation) (str '' '') (str ''%20'')\<rparr>
                            else citation)
            in Inr (formatGeminiCitation (index citation) (CitationMarkers (options ctx)),
                    ctx\<lparr>linkAccumulator := (linkAccumulator ctx)
                          \<lparr>linkArray := linkArray (linkAccumulator ctx) @ [citation]\<rparr>\<rparr>)))"

definition citeAttr2 ::
  "gostring \<Rightarrow> gostring \<Rightarrow> ('a Options_scheme, 'z) textifyTraverseContext_scheme
   \<Rightarrow> panic + (gostring \<times> ('a Options_scheme, 'z) textifyTraverseContext_scheme)" where
  "citeAttr2 attrVal text ctx =
     (if attrVal \<noteq> [] then
        (let attrVal = normalizeHrefLink attrVal
         in if \<not> OmitLinks (options ctx) \<and> attrVal \<noteq> [] \<and> text \<noteq> attrVal
            then addGeminiCitation2 attrVal text ctx
            else Inr ([], ctx))
      else Inr ([], ctx))"

definition paragraphHandler2 ::
  "(Options2 textifyTraverseContext \<Rightarrow> panic + Options2 textifyTraverseContext)
   \<Rightarrow> Options2 textifyTraverseContext \<Rightarrow> panic + Options2 textifyTraverseContext" where
  "paragraphHandler2 traverseChildren ctx =
     andThen (emit2 (str ''\<newline>\<newline>'') (CheckFlushCitations ctx)) (\<lambda>ctx.
     andThen (traverseChildren ctx) (\<lambda>ctx.
     emit2 (str ''\<newline>\<newline>'') ctx))"

definition handleTableElement2 ::
  "tablewriter
   \<Rightarrow> (Options2 textifyTraverseContext \<Rightarrow> panic + Options2 textifyTraverseContext)
   \<Rightarrow> (Options2 textifyTraverseContext \<Rightarrow> panic + gostring)
   \<Rightarrow> Node \<Rightarrow> Options2 textifyTraverseContext \<Rightarrow> panic + Options2 textifyTraverseContext" where
  "handleTableElement2 tw traverseChildren renderEachChild node ctx =
     (if \<not> PrettyTables (options ctx) then Inl HandleTableElementInactive
      else case DataAtom node of
        Table \<Rightarrow>
          andThen (if tableNestLevel (linkAccumulator ctx) = 0
                   then emit2 (str ''\<newline>\<newline>```\<newline>'') ctx
                   else emit2 (str ''\<newline>\<newline>'') ctx) (\<lambda>ctx.
          andThen (traverseChildren
                     (ctx\<lparr>linkAccumulator := (linkAccumulator ctx)
                            \<lparr>tableNestLevel := tableNestLevel (linkAccumulator ctx) + 1\<rparr>,
                          tableCtx := init (tableCtx ctx)\<rparr>)) (\<lambda>ctx.
          andThen (emit2 (tw (PrettyTablesOptions (options ctx)) (header (tableCtx ctx))
                          (footer (tableCtx ctx)) (body (tableCtx ctx))) ctx) (\<lambda>ctx.
          (let ctx = ctx\<lparr>linkAccumulator := (linkAccumulator ctx)
                           \<lparr>tableNestLevel := tableNestLevel (linkAccumulator ctx) - 1\<rparr>\<rparr>
           in if tableNestLevel (linkAccumulator ctx) = 0
              then emit2 (str ''```\<newline>\<newline>'') ctx
              else emit2 (str ''\<newline>\<newline>'') ctx))))
      | Tfoot \<Rightarrow>
          andThen (traverseChildren (ctx\<lparr>tableCtx := (tableCtx ctx)\<lparr>isInFooter := True\<rparr>\<rparr>)) (\<lambda>ctx.
          Inr (ctx\<lparr>tableCtx := (tableCtx ctx)\<lparr>isInFooter := False\<rparr>\<rparr>))
      | Tr \<Rightarrow>
          andThen (traverseChildren (ctx\<lparr>tableCtx := (tableCtx ctx)\<lparr>body := body (tableCtx ctx) @ [[]]\<rparr>\<rparr>)) (\<lambda>ctx.
          Inr (ctx\<lparr>tableCtx := (tableCtx ctx)\<lparr>tmpRow := tmpRow (tableCtx ctx) + 1\<rparr>\<rparr>))
      | Th \<Rightarrow>
          andThen (renderEachChild ctx) (\<lambda>res.
          Inr (ctx\<lparr>tableCtx := (tableCtx ctx)\<lparr>header := header (tableCtx ctx) @ [res]\<rparr>\<rparr>))
      | Td \<Rightarrow>
          andThen (renderEachChild ctx) (\<lambda>res.
          if isInFooter (tableCtx ctx)
          then Inr (ctx\<lparr>tableCtx := (tableCtx ctx)\<lparr>footer := footer (tableCtx ctx) @ [res]\<rparr>\<rparr>)
          else if tmpRow (tableCtx ctx) < 0 \<or> int (length (body (tableCtx ctx))) \<le> tmpRow (tableCtx ctx)
          then Inl IndexOutOfRange
          else Inr (ctx\<lparr>tableCtx := (tableCtx ctx)
                     \<lparr>body := (body (tableCtx ctx))
                        [nat (tmpRow (tableCtx ctx)) :=
                           body (tableCtx ctx) ! nat (tmpRow (tableCtx ctx)) @ [res]]\<rparr>\<rparr>))
      | _ \<Rightarrow> Inr ctx)"

text \<open>\<open>len(strings.Split(s, " "))\<close>: one more than the number of spaces of \<open>s\<close>.\<close>

definition splitCount :: "gostring \<Rightarrow> int" where
  "splitCount s = int (length (filter (\<lambda>r. r = 0x20) s)) + 1"

text \<open>
  The probe of a list item or a paragraph: the children are traversed in the zero context
  \<open>testCtx\<close>; its buffer and its citations decide what is emitted. \<open>linkArray[0]\<close> is read only
  when the array has one element.
\<close>

definition handleElement2 ::
  "tablewriter
   \<Rightarrow> (Options2 textifyTraverseContext \<Rightarrow> panic + Options2 textifyTraverseContext)
   \<Rightarrow> (Options2 textifyTraverseContext \<Rightarrow> panic + gostring)
   \<Rightarrow> Node \<Rightarrow> Options2 textifyTraverseContext \<Rightarrow> panic + Options2 textifyTraverseContext" where
  "handleElement2 tw traverseChildren renderEachChild node ctx0 =
     (let ctx = ctx0\<lparr>justClosedDiv := False\<rparr>;
          heading = (\<lambda>ctx.
            andThen (emit2 (str ''\<newline>\<newline>'' @ headingPrefix (DataAtom node)) (FlushCitations ctx)) (\<lambda>ctx.
            andThen (traverseChildren ctx) (\<lambda>ctx.
            emit2 (str ''\<newline>\<newline>'') ctx)));
          tableElement = (\<lambda>ctx.
            if PrettyTables (options ctx)
            then handleTableElement2 tw traverseChildren renderEachChild node ctx
            else if DataAtom node = Table
            then andThen (emit2 (str ''\<newline>\<newline>'' @ [0x229E] @ str '' table '' @ [0x229E] @ str ''\<newline>\<newline>'') ctx)
                   (\<lambda>ctx. paragraphHandler2 traverseChildren ctx)
            else andThen (if DataAtom node = Tr then emit2 (str ''\<newline>'') ctx else Inr ctx)
                   (\<lambda>ctx. traverseChildren ctx))
      in case DataAtom node of
        Footer \<Rightarrow> Inr ctx
      | Nav \<Rightarrow> Inr ctx
      | Br \<Rightarrow> emit2 (str ''\<newline>'') ctx
      | H1 \<Rightarrow> heading ctx
      | H2 \<Rightarrow> heading ctx
      | H3 \<Rightarrow> heading ctx
      | Blockquote \<Rightarrow>
          (let ctx = FlushCitations ctx;
               ctx = ctx\<lparr>blockquoteLevel := blockquoteLevel ctx + 1\<rparr>
           in andThen (Repeat (str ''>'') (blockquoteLevel ctx)) (\<lambda>marks.
              andThen (traverseChildren (ctx\<lparr>prefix := marks @ str '' ''\<rparr>)) (\<lambda>ctx.
              (let ctx = ctx\<lparr>blockquoteLevel := blockquoteLevel ctx - 1\<rparr>
               in andThen (Repeat (str ''>'') (blockquoteLevel ctx)) (\<lambda>marks.
                  emit2 []
                    (ctx\<lparr>prefix := (if 0 < blockquoteLevel ctx then marks @ str '' '' else marks)\<rparr>))))))
      | Div \<Rightarrow>
          andThen (if 0 < lineLength ctx then emit2 (str ''\<newline>'') ctx else Inr ctx) (\<lambda>ctx.
          andThen (traverseChildren ctx) (\<lambda>ctx.
          andThen (if \<not> justClosedDiv ctx then emit2 (str ''\<newline>'') ctx else Inr ctx) (\<lambda>ctx.
          Inr (ctx\<lparr>justClosedDiv := True\<rparr>))))
      | Li \<Rightarrow>
          andThen (traverseChildren zeroContext) (\<lambda>testCtx.
          if splitCount (buf testCtx) < ListItemToLinkWordThreshold (options ctx)
             \<and> length (linkArray (linkAccumulator testCtx)) = 1
          then emit2 (str ''=> '' @ url (hd (linkArray (linkAccumulator testCtx))) @ str '' ''
                       @ buf testCtx @ str ''\<newline>'') ctx
          else if length (linkArray (linkAccumulator testCtx)) = 0
          then emit2 (str ''* '' @ buf testCtx @ str ''\<newline>'') ctx
          else andThen (emit2 (str ''* '') ctx) (\<lambda>ctx.
               andThen (traverseChildren ctx) (\<lambda>ctx.
               emit2 (str ''\<newline>'') ctx)))
      | Img \<Rightarrow>
          (let altText = imgAltText (options ctx) node
           in if EmitImagesAsLinks (options ctx)
              then andThen (emit2 altText ctx) (\<lambda>ctx.
                   andThen (citeAttr2 (getAttrVal node (str ''src'')) altText ctx) (\<lambda>(hrefLink, ctx).
                   emit2 hrefLink ctx))
              else emit2 altText ctx)
      | A \<Rightarrow>
          (let linkText = (case Children node of
                             [c] \<Rightarrow> if Type c = TextNode then Data c else []
                           | _ \<Rightarrow> [])
           in andThen (traverseChildren ctx) (\<lambda>ctx.
              andThen (case Children node of
                         [img] \<Rightarrow> if DataAtom img = Img
                                  then (let linkText = EmptyLinkPrefix (options ctx)
                                        in andThen (emit2 (str '' '' @ linkText) ctx)
                                             (\<lambda>ctx. Inr (linkText, ctx)))
                                  else Inr (linkText, ctx)
                       | _ \<Rightarrow> Inr (linkText, ctx)) (\<lambda>(linkText, ctx).
              andThen (citeAttr2 (getAttrVal node (str ''href'')) linkText ctx) (\<lambda>(hrefLink, ctx).
              emit2 hrefLink ctx))))
      | Ul \<Rightarrow> paragraphHandler2 traverseChildren ctx
      | P \<Rightarrow>
          andThen (traverseChildren zeroContext) (\<lambda>testCtx.
          if splitCount (buf testCtx) < ListItemToLinkWordThreshold (options ctx)
             \<and> length (linkArray (linkAccumulator testCtx)) = 1
          then emit2 (str ''=> '' @ url (hd (linkArray (linkAccumulator testCtx))) @ str '' ''
                       @ buf testCtx @ str ''\<newline>'') ctx
          else if length (linkArray (linkAccumulator testCtx)) = 0
          then emit2 (buf testCtx @ str ''\<newline>'') ctx
          else paragraphHandler2 traverseChildren ctx)
      | Table \<Rightarrow> tableElement ctx
      | Tfoot \<Rightarrow> tableElement ctx
      | Th \<Rightarrow> tableElement ctx
      | Tr \<Rightarrow> tableElement ctx
      | Td \<Rightarrow> tableElement ctx
      | Pre \<Rightarrow>
          andThen (emit2 (str ''\<newline>\<newline>```\<newline>'') ctx) (\<lambda>ctx.
          andThen (traverseChildren (ctx\<lparr>isPre := True\<rparr>)) (\<lambda>ctx.
          emit2 (str ''\<newline>```\<newline>\<newline>'') (ctx\<lparr>isPre := False\<rparr>)))
      | Style \<Rightarrow> Inr ctx
      | Script \<Rightarrow> Inr ctx
      | Head \<Rightarrow> Inr ctx
      | _ \<Rightarrow> traverseChildren ctx)"

text \<open>
  The two regular expressions of the second \<open>FromHTMLNode\<close>, \<open>startQuote = \n *\n+> \n\<close> and
  \<open>endQuote = \n> \n\n+\<close>: a match at the head of the string (the rest after it), and
  \<open>ReplaceAllString(text, "\n\n")\<close>.
\<close>

definition startQuoteMatch :: "gostring \<Rightarrow> gostring option" where
  "startQuoteMatch s =
     (case s of
        [] \<Rightarrow> None
      | c # s1 \<Rightarrow>
          (let s2 = dropWhile (\<lambda>r. r = 0x20) s1;
               s3 = dropWhile (\<lambda>r. r = 0x0A) s2
           in if c = 0x0A \<and> HasPrefix s2 (str ''\<newline>'') \<and> HasPrefix s3 (str ''> \<newline>'')
              then Some (drop 3 s3) else None))"

definition endQuoteMatch :: "gostring \<Rightarrow> gostring option" where
  "endQuoteMatch s =
     (if HasPrefix s (str ''\<newline>> \<newline>\<newline>'')
      then Some (dropWhile (\<lambda>r. r = 0x0A) (drop 5 s)) else None)"

lemma HasPrefix_length: "HasPrefix s p \<Longrightarrow> length p \<le> length s"
proof -
  assume "HasPrefix s p"
  then have "length (take (length p) s) = length p" by (simp add: HasPrefix_def)
  then show ?thesis by simp
qed

lemma startQuoteMatch_shorter: "startQuoteMatch s = Some t \<Longrightarrow> length t < length s"
proof -
  assume a: "startQuoteMatch s = Some t"
  then obtain c s1 where s: "s = c # s1" by (cases s) (simp_all add: startQuoteMatch_def)
  from a s have t: "t = drop 3 (dropWhile (\<lambda>r. r = 0x0A) (dropWhile (\<lambda>r. r = 0x20) s1))"
    by (simp add: startQuoteMatch_def Let_def split: if_splits)
  have "length (dropWhile (\<lambda>r::int. r = 0x0A) (dropWhile (\<lambda>r. r = 0x20) s1))
          \<le> length (dropWhile (\<lambda>r::int. r = 0x20) s1)"
    by (rule length_dropWhile_le)
  also have "\<dots> \<le> length s1" by (rule length_dropWhile_le)
  finally show ?thesis unfolding t s by simp
qed

lemma endQuoteMatch_shorter: "endQuoteMatch s = Some t \<Longrightarrow> length t < length s"
proof -
  assume a: "endQuoteMatch s = Some t"
  then have t: "t = dropWhile (\<lambda>r. r = 0x0A) (drop 5 s)"
    and p: "HasPrefix s (str ''\<newline>> \<newline>\<newline>'')"
    by (simp_all add: endQuoteMatch_def split: if_splits)
  from HasPrefix_length [OF p] have "5 \<le> length s" by (simp add: str_def)
  moreover have "length t \<le> length (drop 5 s)" unfolding t by (rule length_dropWhile_le)
  ultimately show ?thesis by simp
qed

function startQuote_ReplaceAllString :: "gostring \<Rightarrow> gostring" where
  "startQuote_ReplaceAllString [] = []"
| "startQuote_ReplaceAllString (c # cs) =
     (case startQuoteMatch (c # cs) of
        Some rest \<Rightarrow> str ''\<newline>\<newline>'' @ startQuote_ReplaceAllString rest
      | None \<Rightarrow> c # startQuote_ReplaceAllString cs)"
  by pat_completeness auto
termination
  by (relation "measure length") (auto dest!: startQuoteMatch_shorter)

function endQuote_ReplaceAllString :: "gostring \<Rightarrow> gostring" where
  "endQuote_ReplaceAllString [] = []"
| "endQuote_ReplaceAllString (c # cs) =
     (case endQuoteMatch (c # cs) of
        Some rest \<Rightarrow> str ''\<newline>\<newline>'' @ endQuote_ReplaceAllString rest
      | None \<Rightarrow> c # endQuote_ReplaceAllString cs)"
  by pat_completeness auto
termination
  by (relation "measure length") (auto dest!: endQuoteMatch_shorter)

text \<open>
  The second \<open>FromHTMLNode(doc, ctx)\<close> works on its own copy of the context and returns the
  text only; \<open>renderEachChild\<close> calls it with a copy of the current context for every child.
\<close>

definition FromHTMLNode_body2 ::
  "(Options2 textifyTraverseContext \<Rightarrow> panic + Options2 textifyTraverseContext)
   \<Rightarrow> Options2 textifyTraverseContext \<Rightarrow> panic + gostring" where
  "FromHTMLNode_body2 traverseDoc ctx =
     andThen (traverseDoc ctx) (\<lambda>ctx.
     (let ctx = forceFlushGeminiCitations ctx;
          text = normalizeText (buf ctx);
          text = startQuote_ReplaceAllString text;
          text = endQuote_ReplaceAllString text;
          text = endQuote_ReplaceAllString text
      in Inr text))"

fun traverse2 ::
    "tablewriter \<Rightarrow> Node \<Rightarrow> Options2 textifyTraverseContext \<Rightarrow> panic + Options2 textifyTraverseContext"
  and traverseNodes2 ::
    "tablewriter \<Rightarrow> Node list \<Rightarrow> Options2 textifyTraverseContext \<Rightarrow> panic + Options2 textifyTraverseContext"
  and renderNodes2 ::
    "tablewriter \<Rightarrow> Node list \<Rightarrow> gostring \<Rightarrow> Options2 textifyTraverseContext \<Rightarrow> panic + gostring"
where
  "traverse2 tw (Node ty a d attrs cs) ctx =
     (case ty of
        TextNode \<Rightarrow>
          emit2 (if isPre ctx then d else TrimSpace (spacingRe_ReplaceAllString d)) ctx
      | ElementNode \<Rightarrow>
          handleElement2 tw (\<lambda>ctx. traverseNodes2 tw cs ctx) (\<lambda>ctx. renderNodes2 tw cs [] ctx)
            (Node ty a d attrs cs) ctx
      | _ \<Rightarrow> traverseNodes2 tw cs ctx)"
| "traverseNodes2 tw [] ctx = Inr ctx"
| "traverseNodes2 tw (c # cs) ctx =
     (case traverse2 tw c ctx of Inl e \<Rightarrow> Inl e | Inr ctx' \<Rightarrow> traverseNodes2 tw cs ctx')"
| "renderNodes2 tw [] b ctx = Inr b"
| "renderNodes2 tw (c # cs) b ctx =
     (case FromHTMLNode_body2 (\<lambda>ctx. traverse2 tw c ctx) ctx of
        Inl e \<Rightarrow> Inl e
      | Inr s \<Rightarrow> renderNodes2 tw cs (b @ s @ (if cs \<noteq> [] then str ''\<newline>'' else [])) ctx)"



text \<open>The two loops under the names of the source.\<close>

definition traverseChildren ::
  "tablewriter \<Rightarrow> Node \<Rightarrow> 'a Options_scheme textifyTraverseContext
   \<Rightarrow> panic + 'a Options_scheme textifyTraverseContext" where
  "traverseChildren tw node ctx = traverseNodes tw (Children node) ctx"

definition renderEachChild ::
  "tablewriter \<Rightarrow> Node \<Rightarrow> 'a Options_scheme textifyTraverseContext
   \<Rightarrow> panic + (gostring \<times> 'a Options_scheme textifyTraverseContext)" where
  "renderEachChild tw node ctx = renderNodes tw (Children node) [] ctx"

definition traverseChildren2 ::
  "tablewriter \<Rightarrow> Node \<Rightarrow> Options2 textifyTraverseContext \<Rightarrow> panic + Options2 textifyTraverseContext" where
  "traverseChildren2 tw node ctx = traverseNodes2 tw (Children node) ctx"

definition renderEachChild2 ::
  "tablewriter \<Rightarrow> Node \<Rightarrow> Options2 textifyTraverseContext \<Rightarrow> panic + gostring" where
  "renderEachChild2 tw node ctx = renderNodes2 tw (Children node) [] ctx"

section \<open>Example inputs\<close>

definition textNode :: "string \<Rightarrow> Node" where
  "textNode s = Node TextNode OtherAtom (str s) [] []"

definition element :: "Atom \<Rightarrow> (gostring \<times> gostring) list \<Rightarrow> Node list \<Rightarrow> Node" where
  "element a attrs cs = Node ElementNode a [] attrs cs"

text \<open>The settings of \<open>NewOptions()\<close>, without table options, and a table writer for them.\<close>

definition exampleOptions :: Options where
  "exampleOptions =
     \<lparr>PrettyTables = False, PrettyTablesOptions = None, OmitLinks = False, CitationStart = 1,
      CitationMarkers = True, LinkEmitFrequency = 2, NumberedLinks = True,
      EmitImagesAsLinks = True, ImageMarkerPrefix = [0x2021], EmptyLinkPrefix = str ''>>''\<rparr>"


definition plainTable :: tablewriter where
  "plainTable opts hdr ftr bdy = concat (hdr @ concat bdy @ ftr)"

text \<open>
  The line of a citation in a link block as the specification words it,
  \<open>=> <url> <marker> <display>\<close>, to compare with what the flush loop writes.
\<close>

definition citationLine :: "'a Options_scheme \<Rightarrow> citationLink \<Rightarrow> gostring" where
  "citationLine opts link =
     str ''=> '' @ url link @ str '' '' @ formatGeminiCitation (index link) (NumberedLinks opts)
       @ str '' '' @ display link @ str ''\<newline>''"

text \<open>
  The context inside a first-level blockquote after a text of 74 letters has been emitted:
  the current line has reached the maximal line length and ends in a letter.
\<close>

definition quoteContext :: "Options textifyTraverseContext" where
  "quoteContext =
     (newContext exampleOptions newLinkAccumulator)
       \<lparr>buf := str ''\<newline>> \<newline>> '' @ replicate 74 0x61, prefix := str ''> '',
        blockquoteLevel := 1, lineLength := 74\<rparr>"

text \<open>The context inside a first-level blockquote after the text \<open>a\<close> has been emitted.\<close>

definition shortQuoteContext :: "Options textifyTraverseContext" where
  "shortQuoteContext =
     (newContext exampleOptions newLinkAccumulator)
       \<lparr>buf := str ''\<newline>> \<newline>> a'', prefix := str ''> '',
        blockquoteLevel := 1, lineLength := 1\<rparr>"

text \<open>A document with a link, a heading and a table of one cell that holds a second link.\<close>

definition tableDocument :: Node where
  "tableDocument =
     element Div []
       [element A [(str ''href'', str ''x'')] [textNode ''L''],
        element H1 [] [textNode ''T''],
        element Table []
          [element Tr [] [element Td [] [element A [(str ''href'', str ''y'')] [textNode ''M'']]]]]"


section \<open>The emitter never panics\<close>

lemma scanDown_ok:
  "- 1 \<le> i \<Longrightarrow> i < int (length runes) \<Longrightarrow> \<exists>k. scanDown runes i = Inr k \<and> - 1 \<le> k \<and> k \<le> i"
proof (induction runes i rule: scanDown.induct)
  case (1 runes i)
  show ?case
  proof (cases "0 \<le> i \<and> \<not> IsSpace (runes ! nat i)")
    case True
    with "1.prems" "1.IH" obtain k where "scanDown runes (i - 1) = Inr k" "- 1 \<le> k" "k \<le> i - 1"
      by auto
    with True "1.prems" show ?thesis
      by (subst scanDown.simps) auto
  next
    case False
    with "1.prems" show ?thesis
      by (subst scanDown.simps) auto
  qed
qed

lemma scanUp_ok:
  "0 \<le> i \<Longrightarrow> \<exists>k. scanUp runes i = Inr k \<and> i \<le> k \<and> k \<le> max i (int (length runes))"
proof (induction runes i rule: scanUp.induct)
  case (1 runes i)
  show ?case
  proof (cases "i < int (length runes) \<and> \<not> IsSpace (runes ! nat i)")
    case True
    with "1.prems" "1.IH" obtain k where "scanUp runes (i + 1) = Inr k" "i + 1 \<le> k"
      "k \<le> max (i + 1) (int (length runes))"
      by auto
    with True "1.prems" show ?thesis
      by (subst scanUp.simps) auto
  next
    case False
    with "1.prems" show ?thesis
      by (subst scanUp.simps) auto
  qed
qed

lemma skipSpaces_ok:
  "0 \<le> i \<Longrightarrow> \<exists>k. skipSpaces runes i = Inr k \<and> i \<le> k \<and> k \<le> max i (int (length runes))"
proof (induction runes i rule: skipSpaces.induct)
  case (1 runes i)
  show ?case
  proof (cases "i < int (length runes) \<and> IsSpace (runes ! nat i)")
    case True
    with "1.prems" "1.IH" obtain k where "skipSpaces runes (i + 1) = Inr k" "i + 1 \<le> k"
      "k \<le> max (i + 1) (int (length runes))"
      by auto
    with True "1.prems" show ?thesis
      by (subst skipSpaces.simps) auto
  next
    case False
    with "1.prems" show ?thesis
      by (subst skipSpaces.simps) auto
  qed
qed

lemma breakStep_ok:
  assumes long: "maxLineLen < int (length runes) + existing" and ex: "existing < maxLineLen"
  shows "\<exists>line j. breakStep runes existing = Inr (line, j) \<and> line \<noteq> []"
proof -
  let ?i = "maxLineLen - existing"
  from long ex have r: "0 < ?i" "?i < int (length runes)" by auto
  from r have "- 1 \<le> ?i" by simp
  from scanDown_ok [OF this r(2)] obtain i0 where
    d: "scanDown runes ?i = Inr i0" and i0: "- 1 \<le> i0" "i0 \<le> ?i" by auto
  have "\<exists>i. (if i0 = - 1 then scanUp runes ?i else Inr i0) = Inr i \<and> 0 \<le> i \<and> i \<le> int (length runes)"
  proof (cases "i0 = - 1")
    case True
    from r scanUp_ok [of ?i runes] show ?thesis using True by auto
  next
    case False
    with i0 r show ?thesis by auto
  qed
  then obtain i where u: "(if i0 = - 1 then scanUp runes ?i else Inr i0) = Inr i"
    and i: "0 \<le> i" "i \<le> int (length runes)" by auto
  from skipSpaces_ok [OF i(1), of runes] i obtain j where
    s: "skipSpaces runes i = Inr j" and j: "i \<le> j" "j \<le> int (length runes)" by auto
  from d u i s j show ?thesis
    by (simp add: breakStep_def str_def)
qed

lemma breakLoop_ok:
  "existing < maxLineLen \<Longrightarrow> list_all (\<lambda>l. l \<noteq> []) ret
   \<Longrightarrow> \<exists>lines. breakLoop ret runes existing = Inr lines \<and> list_all (\<lambda>l. l \<noteq> []) lines"
proof (induction ret runes existing rule: breakLoop.induct)
  case (1 ret runes existing)
  show ?case
  proof (cases "maxLineLen < int (length runes) + existing")
    case True
    from breakStep_ok [OF True "1.prems"(1)] obtain line j where
      st: "breakStep runes existing = Inr (line, j)" and ne: "line \<noteq> []" by auto
    have "\<exists>lines. breakLoop (ret @ [line]) (drop (nat j) runes) 0 = Inr lines
            \<and> list_all (\<lambda>l. l \<noteq> []) lines"
      using "1.IH" [OF True st refl] "1.prems"(2) ne by (simp add: maxLineLen_def)
    with True st show ?thesis by (subst breakLoop.simps) simp
  next
    case False
    with "1.prems" show ?thesis by (subst breakLoop.simps) simp
  qed
qed

lemma breakLongLines_ok:
  "data \<noteq> [] \<Longrightarrow> \<exists>lines. breakLongLines data ctx = Inr lines \<and> list_all (\<lambda>l. l \<noteq> []) lines"
  using breakLoop_ok [of 0 "[str ''\<newline>'']" data] breakLoop_ok [of "lineLength ctx" "[]" data]
  by (auto simp: breakLongLines_def maxLineLen_def str_def)

lemma emitLine_ok: "line \<noteq> [] \<Longrightarrow> \<exists>ctx'. emitLine line ctx = Inr ctx'"
  by (cases line) (simp_all add: emitLine_def Let_def)

lemma emitLines_ok: "list_all (\<lambda>l. l \<noteq> []) lines \<Longrightarrow> \<exists>ctx'. emitLines lines ctx = Inr ctx'"
proof (induction lines arbitrary: ctx)
  case Nil
  show ?case by simp
next
  case (Cons line lines)
  then obtain ctx1 where "emitLine line ctx = Inr ctx1" using emitLine_ok [of line ctx] by auto
  with Cons show ?case by simp
qed

lemma emit_ok: "\<exists>ctx'. emit data ctx = Inr ctx'"
proof (cases "data = []")
  case True
  then show ?thesis by (simp add: emit_def)
next
  case False
  from breakLongLines_ok [OF False, of ctx] obtain lines where
    "breakLongLines data ctx = Inr lines" "list_all (\<lambda>l. l \<noteq> []) lines" by auto
  with False emitLines_ok [of lines ctx] show ?thesis by (auto simp: emit_def)
qed

lemma emit2_ok: "\<exists>ctx'. emit2 data ctx = Inr ctx'"
  using emitLines_ok [of "[data]" ctx] by (auto simp: emit2_def)

section \<open>What the emitter leaves unchanged\<close>

lemma writeRunes_frame:
  "options (writeRunes d ctx) = options ctx \<and> linkAccumulator (writeRunes d ctx) = linkAccumulator ctx
   \<and> prefix (writeRunes d ctx) = prefix ctx \<and> blockquoteLevel (writeRunes d ctx) = blockquoteLevel ctx
   \<and> isPre (writeRunes d ctx) = isPre ctx \<and> tableCtx (writeRunes d ctx) = tableCtx ctx
   \<and> justClosedDiv (writeRunes d ctx) = justClosedDiv ctx
   \<and> endsWithSpace (writeRunes d ctx) = endsWithSpace ctx"
  by (induction d arbitrary: ctx) simp_all

lemma emitLine_frame:
  "emitLine line ctx = Inr ctx' \<Longrightarrow>
   options ctx' = options ctx \<and> linkAccumulator ctx' = linkAccumulator ctx
   \<and> prefix ctx' = prefix ctx \<and> blockquoteLevel ctx' = blockquoteLevel ctx
   \<and> isPre ctx' = isPre ctx \<and> tableCtx ctx' = tableCtx ctx
   \<and> justClosedDiv ctx' = justClosedDiv ctx"
  by (cases line)
     (auto simp: emitLine_def Let_def writeRunes_frame simp del: writeRunes.simps split: if_splits)

lemma emitLines_frame:
  "emitLines lines ctx = Inr ctx' \<Longrightarrow>
   options ctx' = options ctx \<and> linkAccumulator ctx' = linkAccumulator ctx
   \<and> prefix ctx' = prefix ctx \<and> blockquoteLevel ctx' = blockquoteLevel ctx
   \<and> isPre ctx' = isPre ctx \<and> tableCtx ctx' = tableCtx ctx
   \<and> justClosedDiv ctx' = justClosedDiv ctx"
proof (induction lines arbitrary: ctx)
  case Nil
  then show ?case by simp
next
  case (Cons line lines)
  then obtain ctx1 where 1: "emitLine line ctx = Inr ctx1" and 2: "emitLines lines ctx1 = Inr ctx'"
    by (auto split: sum.splits)
  from emitLine_frame [OF 1] Cons.IH [OF 2] show ?case by simp
qed

lemma emit_frame:
  "emit data ctx = Inr ctx' \<Longrightarrow>
   options ctx' = options ctx \<and> linkAccumulator ctx' = linkAccumulator ctx
   \<and> prefix ctx' = prefix ctx \<and> blockquoteLevel ctx' = blockquoteLevel ctx
   \<and> isPre ctx' = isPre ctx \<and> tableCtx ctx' = tableCtx ctx
   \<and> justClosedDiv ctx' = justClosedDiv ctx"
  by (auto simp: emit_def split: if_splits sum.splits dest: emitLines_frame)

lemma emit2_frame:
  "emit2 data ctx = Inr ctx' \<Longrightarrow>
   options ctx' = options ctx \<and> linkAccumulator ctx' = linkAccumulator ctx
   \<and> prefix ctx' = prefix ctx \<and> blockquoteLevel ctx' = blockquoteLevel ctx
   \<and> isPre ctx' = isPre ctx \<and> tableCtx ctx' = tableCtx ctx
   \<and> justClosedDiv ctx' = justClosedDiv ctx"
proof (cases "data = []")
  case True
  assume "emit2 data ctx = Inr ctx'"
  with True show ?thesis by (simp add: emit2_def)
next
  case False
  assume "emit2 data ctx = Inr ctx'"
  with False have "emitLines [data] ctx = Inr ctx'" by (simp add: emit2_def)
  then show ?thesis by (rule emitLines_frame)
qed
section \<open>The emitter\<close>




lemma writeRunes_prefix:
  "\<exists>n. writeRunes d ctx = ctx\<lparr>buf := buf ctx @ withPrefix (prefix ctx) d, lineLength := n\<rparr>"
proof (induction d arbitrary: ctx)
  case Nil
  show ?case by (rule exI [of _ "lineLength ctx"]) (simp add: withPrefix_def)
next
  case (Cons c cs)
  let ?c1 = "(if c = 0x0A
        then ctx\<lparr>buf := buf ctx @ [c] @ (if prefix ctx \<noteq> [] then prefix ctx else []), lineLength := 0\<rparr>
        else ctx\<lparr>buf := buf ctx @ [c], lineLength := lineLength ctx + 1\<rparr>)"
  have p: "prefix ?c1 = prefix ctx"
    and b: "buf ?c1 = buf ctx @ withPrefix (prefix ctx) [c]"
    by (simp_all add: withPrefix_def)
  from Cons.IH [of ?c1] obtain n where
    "writeRunes cs ?c1 = ?c1\<lparr>buf := buf ?c1 @ withPrefix (prefix ?c1) cs, lineLength := n\<rparr>"
    by blast
  then have "writeRunes (c # cs) ctx
      = ctx\<lparr>buf := buf ctx @ withPrefix (prefix ctx) (c # cs), lineLength := n\<rparr>"
    unfolding p b by (simp add: withPrefix_def)
  then show ?case by (rule exI [of _ n])
qed

lemma withPrefix_empty: "withPrefix [] data = data"
  by (induction data) (simp_all add: withPrefix_def)

lemma breakLongLines_fits:
  assumes "blockquoteLevel ctx = 0
      \<or> (lineLength ctx < maxLineLen \<and> int (length data) + lineLength ctx \<le> maxLineLen)"
    and "data \<noteq> []"
  shows "breakLongLines data ctx = Inr [data]"
  using assms by (auto simp: breakLongLines_def breakLoop.simps [of "[]" data "lineLength ctx"])

lemma emit_fits:
  assumes "blockquoteLevel ctx = 0
      \<or> (lineLength ctx < maxLineLen \<and> int (length data) + lineLength ctx \<le> maxLineLen)"
    and ne: "data \<noteq> []"
  shows "\<exists>n. emit data ctx = Inr (ctx\<lparr>
         buf := buf ctx
                @ (if \<not> (IsSpace (hd data) \<or> punctNoSpaceBefore (hd data)) \<and> \<not> endsWithSpace ctx
                   then str '' '' else [])
                @ withPrefix (prefix ctx) data,
         endsWithSpace := (IsSpace (last data) \<or> punctNoSpaceAfter (last data)),
         lineLength := n\<rparr>)"
proof -
  from ne obtain r rs where d: "data = r # rs" by (cases data) auto
  let ?sep = "\<not> (IsSpace (hd data) \<or> punctNoSpaceBefore (hd data)) \<and> \<not> endsWithSpace ctx"
  let ?c1 = "(if ?sep then ctx\<lparr>buf := buf ctx @ str '' '', lineLength := lineLength ctx + 1\<rparr> else ctx)"
  let ?c2 = "?c1\<lparr>endsWithSpace := (IsSpace (last data) \<or> punctNoSpaceAfter (last data))\<rparr>"
  have e: "emit data ctx = Inr (writeRunes data ?c2)"
    using breakLongLines_fits [OF assms] ne d
    by (simp add: emit_def emitLine_def Let_def del: writeRunes.simps)
  from writeRunes_prefix [of data ?c2] obtain n where
    w: "writeRunes data ?c2 = ?c2\<lparr>buf := buf ?c2 @ withPrefix (prefix ?c2) data, lineLength := n\<rparr>"
    by blast
  have "?c2\<lparr>buf := buf ?c2 @ withPrefix (prefix ?c2) data, lineLength := n\<rparr> =
        ctx\<lparr>buf := buf ctx @ (if ?sep then str '' '' else []) @ withPrefix (prefix ctx) data,
            endsWithSpace := (IsSpace (last data) \<or> punctNoSpaceAfter (last data)),
            lineLength := n\<rparr>"
    by simp
  with e w have "emit data ctx = Inr (ctx\<lparr>
         buf := buf ctx @ (if ?sep then str '' '' else []) @ withPrefix (prefix ctx) data,
         endsWithSpace := (IsSpace (last data) \<or> punctNoSpaceAfter (last data)),
         lineLength := n\<rparr>)"
    by simp
  then show ?thesis by (rule exI [of _ n])
qed

text \<open>
  C9, as the code has it. \<open>emit\<close> of the empty string changes nothing. Where the fragment is
  not broken into lines (outside a blockquote, or inside one when the current line is
  shorter than the maximal length and the fragment fits on it) \<open>emit\<close> appends one space,
  when the fragment starts with neither white space nor \<open>. , ; ! ? ) ] >\<close> and the flag
  \<open>endsWithSpace\<close> is not set, and then the fragment, with the line prefix after each of its
  newlines (the fragment itself when no prefix is set); the flag becomes whether the last
  rune of the fragment is white space or one of \<open>( [ <\<close>; only the buffer, the flag and the
  line length change.
\<close>

theorem emit_fragment:
  "emit [] ctx = Inr ctx \<and>
   (data \<noteq> [] \<and>
    (blockquoteLevel ctx = 0
      \<or> (lineLength ctx < maxLineLen \<and> int (length data) + lineLength ctx \<le> maxLineLen)) \<longrightarrow>
      (\<exists>n. emit data ctx = Inr (ctx\<lparr>
         buf := buf ctx
                @ (if \<not> (IsSpace (hd data) \<or> punctNoSpaceBefore (hd data)) \<and> \<not> endsWithSpace ctx
                   then str '' '' else [])
                @ withPrefix (prefix ctx) data,
         endsWithSpace := (IsSpace (last data) \<or> punctNoSpaceAfter (last data)),
         lineLength := n\<rparr>)))
   \<and> withPrefix [] data = data"
proof (intro conjI impI)
  show "emit [] ctx = Inr ctx" by (simp add: emit_def)
next
  assume "data \<noteq> [] \<and>
    (blockquoteLevel ctx = 0
      \<or> (lineLength ctx < maxLineLen \<and> int (length data) + lineLength ctx \<le> maxLineLen))"
  then have "blockquoteLevel ctx = 0
      \<or> (lineLength ctx < maxLineLen \<and> int (length data) + lineLength ctx \<le> maxLineLen)"
    and "data \<noteq> []" by simp_all
  then show "\<exists>n. emit data ctx = Inr (ctx\<lparr>
         buf := buf ctx
                @ (if \<not> (IsSpace (hd data) \<or> punctNoSpaceBefore (hd data)) \<and> \<not> endsWithSpace ctx
                   then str '' '' else [])
                @ withPrefix (prefix ctx) data,
         endsWithSpace := (IsSpace (last data) \<or> punctNoSpaceAfter (last data)),
         lineLength := n\<rparr>)"
    by (rule emit_fits)
next
  show "withPrefix [] data = data" by (rule withPrefix_empty)
qed

theorem emit_fragment_witness:
  "str ''b\<newline>c'' \<noteq> []
   \<and> lineLength shortQuoteContext < maxLineLen
   \<and> int (length (str ''b\<newline>c'')) + lineLength shortQuoteContext \<le> maxLineLen
   \<and> (\<exists>n. emit (str ''b\<newline>c'') shortQuoteContext
            = Inr (shortQuoteContext\<lparr>buf := str ''\<newline>> \<newline>> a b\<newline>> c'', endsWithSpace := False,
                     lineLength := n\<rparr>))"
proof -
  have h: "str ''b\<newline>c'' \<noteq> []" "lineLength shortQuoteContext < maxLineLen"
    "int (length (str ''b\<newline>c'')) + lineLength shortQuoteContext \<le> maxLineLen"
    by (simp_all add: str_def shortQuoteContext_def maxLineLen_def)
  have b: "buf shortQuoteContext
         @ (if \<not> (IsSpace (hd (str ''b\<newline>c'')) \<or> punctNoSpaceBefore (hd (str ''b\<newline>c'')))
               \<and> \<not> endsWithSpace shortQuoteContext
            then str '' '' else [])
         @ withPrefix (prefix shortQuoteContext) (str ''b\<newline>c'')
       = str ''\<newline>> \<newline>> a b\<newline>> c''"
    by code_simp
  have f: "(IsSpace (last (str ''b\<newline>c'')) \<or> punctNoSpaceAfter (last (str ''b\<newline>c''))) = False"
    by code_simp
  from emit_fragment [of shortQuoteContext "str ''b\<newline>c''"] h
  have "\<exists>n. emit (str ''b\<newline>c'') shortQuoteContext = Inr (shortQuoteContext\<lparr>
         buf := buf shortQuoteContext
                @ (if \<not> (IsSpace (hd (str ''b\<newline>c'')) \<or> punctNoSpaceBefore (hd (str ''b\<newline>c'')))
                      \<and> \<not> endsWithSpace shortQuoteContext
                   then str '' '' else [])
                @ withPrefix (prefix shortQuoteContext) (str ''b\<newline>c''),
         endsWithSpace := (IsSpace (last (str ''b\<newline>c'')) \<or> punctNoSpaceAfter (last (str ''b\<newline>c''))),
         lineLength := n\<rparr>)"
    by blast
  then have "\<exists>n. emit (str ''b\<newline>c'') shortQuoteContext
            = Inr (shortQuoteContext\<lparr>buf := str ''\<newline>> \<newline>> a b\<newline>> c'', endsWithSpace := False,
                     lineLength := n\<rparr>)"
    unfolding b f .
  with h show ?thesis by blast
qed

text \<open>
  Inside a blockquote the claim fails. The line is full and ends in a letter, the flag is not
  set, and the fragment \<open>x\<close> is appended after a line break and the line prefix, with no
  space before it.
\<close>

theorem emit_in_blockquote_counterexample:
  "endsWithSpace quoteContext = False \<and>
   emit (str ''x'') quoteContext
     = Inr (quoteContext\<lparr>buf := buf quoteContext @ str ''\<newline>> x'', lineLength := 1\<rparr>)"
  by code_simp

section \<open>The citation accumulator\<close>

lemma flushLinks_eq:
  "flushLinks i links ctx =
     ctx\<lparr>buf := buf ctx @ concat (map (citationLine (options ctx))
                   (drop (nat (flushedToIndex (linkAccumulator ctx) + 1 - i)) links)),
         linkAccumulator := (linkAccumulator ctx)
           \<lparr>written := written (linkAccumulator ctx)
               @ drop (nat (flushedToIndex (linkAccumulator ctx) + 1 - i)) links\<rparr>\<rparr>"
proof (induction links arbitrary: i ctx)
  case Nil
  show ?case by simp
next
  case (Cons link links)
  show ?case
  proof (cases "flushedToIndex (linkAccumulator ctx) < i")
    case True
    then have n: "nat (flushedToIndex (linkAccumulator ctx) + 1 - i) = 0"
      "nat (flushedToIndex (linkAccumulator ctx) + 1 - (i + 1)) = 0" by simp_all
    show ?thesis using True
      by (simp add: Cons.IH n citationLine_def)
  next
    case False
    then have "nat (flushedToIndex (linkAccumulator ctx) + 1 - i)
                 = Suc (nat (flushedToIndex (linkAccumulator ctx) + 1 - (i + 1)))" by simp
    with False show ?thesis by (simp add: Cons.IH)
  qed
qed

lemma forceFlushGeminiCitations_eq:
  "forceFlushGeminiCitations ctx =
     (if 0 < tableNestLevel (linkAccumulator ctx) then ctx
      else ctx\<lparr>buf := buf ctx @ str ''\<newline>\<newline>''
                    @ concat (map (citationLine (options ctx))
                        (drop (nat (flushedToIndex (linkAccumulator ctx) + 1)) (linkArray (linkAccumulator ctx))))
                    @ str ''\<newline>'',
               linkAccumulator := (linkAccumulator ctx)
                 \<lparr>written := written (linkAccumulator ctx)
                     @ drop (nat (flushedToIndex (linkAccumulator ctx) + 1)) (linkArray (linkAccumulator ctx)),
                  flushedToIndex := int (length (linkArray (linkAccumulator ctx))) - 1,
                  emitParaCount := 0\<rparr>\<rparr>)"
  by (simp add: forceFlushGeminiCitations_def Let_def flushLinks_eq ResetCitationCounters_def str_def)




text \<open>
  C5: with no citation beyond \<open>flushedToIndex\<close>, the flush of a heading or a blockquote still
  writes three newlines to the buffer: \<open>emitGeminiCitations\<close> compares the length of the array
  with \<open>flushedToIndex\<close>, not with \<open>flushedToIndex + 1\<close> as \<open>CheckFlushCitations\<close> does.
\<close>

theorem FlushCitations_nothing_unflushed:
  "linkArray (linkAccumulator (newContext exampleOptions newLinkAccumulator)) = []
   \<and> FlushCitations (newContext exampleOptions newLinkAccumulator)
       = (newContext exampleOptions newLinkAccumulator)\<lparr>buf := str ''\<newline>\<newline>\<newline>''\<rparr>"
  by code_simp

lemma FlushCitations_all_flushed:
  assumes "tableNestLevel (linkAccumulator ctx) \<le> 0"
    and "flushedToIndex (linkAccumulator ctx) = int (length (linkArray (linkAccumulator ctx))) - 1"
  shows "buf (FlushCitations ctx) = buf ctx @ str ''\<newline>\<newline>\<newline>''"
  using assms by (simp add: FlushCitations_def emitGeminiCitations_def forceFlushGeminiCitations_eq str_def)

lemma forceFlush_in_table:
  "0 < tableNestLevel (linkAccumulator ctx) \<Longrightarrow> forceFlushGeminiCitations ctx = ctx"
  by (simp add: forceFlushGeminiCitations_def)

lemma FlushCitations_in_table:
  "0 < tableNestLevel (linkAccumulator ctx) \<Longrightarrow> FlushCitations ctx = ctx"
  by (simp add: FlushCitations_def emitGeminiCitations_def forceFlushGeminiCitations_def)

section \<open>The final normalisation\<close>

lemma TrimSpace_ends:
  "TrimSpace s = [] \<or> (\<not> IsSpace (hd (TrimSpace s)) \<and> \<not> IsSpace (last (TrimSpace s)))"
proof (cases "TrimSpace s = []")
  case True
  then show ?thesis by simp
next
  case False
  let ?u = "dropWhile IsSpace s"
  let ?v = "dropWhile IsSpace (rev ?u)"
  have t: "TrimSpace s = rev ?v" by (simp add: TrimSpace_def)
  from False t have v: "?v \<noteq> []" by simp
  have u: "?u \<noteq> []"
  proof
    assume "?u = []"
    then have "?v = []" by (simp only: rev.simps dropWhile.simps)
    with v show False ..
  qed
  from v have "\<not> IsSpace (hd ?v)" by (rule hd_dropWhile)
  then have l: "\<not> IsSpace (last (TrimSpace s))" using v t by (simp add: last_rev)
  have "rev ?u = takeWhile IsSpace (rev ?u) @ ?v" by simp
  then have "last (rev ?u) = last ?v" using v by (metis last_appendR)
  then have "hd ?u = last ?v" using u by (simp add: last_rev)
  moreover from u have "\<not> IsSpace (hd ?u)" by (rule hd_dropWhile)
  ultimately have "\<not> IsSpace (hd (TrimSpace s))" using v t by (simp add: hd_rev)
  with l show ?thesis by simp
qed

text \<open>A run of three newlines somewhere in a string.\<close>

fun tripleNewline :: "gostring \<Rightarrow> bool" where
  "tripleNewline (a # b # c # cs) = ((a = 0x0A \<and> b = 0x0A \<and> c = 0x0A) \<or> tripleNewline (b # c # cs))"
| "tripleNewline [] = False"
| "tripleNewline [a] = False"
| "tripleNewline [a, b] = False"

lemma tripleNewline_append:
  "tripleNewline xs \<or> tripleNewline ys \<Longrightarrow> tripleNewline (xs @ ys)"
proof (induction xs rule: tripleNewline.induct)
  case (1 a b c cs)
  then show ?case by auto
next
  case 2
  then show ?case by simp
next
  case (3 a)
  then show ?case by (cases ys rule: tripleNewline.cases) auto
next
  case (4 a b)
  then show ?case by (cases ys rule: tripleNewline.cases) auto
qed

lemma tripleNewline_iff:
  "tripleNewline t \<longleftrightarrow> (\<exists>xs ys. t = xs @ str ''\<newline>\<newline>\<newline>'' @ ys)"
proof
  show "tripleNewline t \<Longrightarrow> \<exists>xs ys. t = xs @ str ''\<newline>\<newline>\<newline>'' @ ys"
  proof (induction t rule: tripleNewline.induct)
    case (1 a b c cs)
    show ?case
    proof (cases "a = 0x0A \<and> b = 0x0A \<and> c = 0x0A")
      case True
      then have "a # b # c # cs = [] @ str ''\<newline>\<newline>\<newline>'' @ cs" by (simp add: str_def)
      then show ?thesis by blast
    next
      case False
      with 1 obtain xs ys where "b # c # cs = xs @ str ''\<newline>\<newline>\<newline>'' @ ys" by auto
      then have "a # b # c # cs = (a # xs) @ str ''\<newline>\<newline>\<newline>'' @ ys" by simp
      then show ?thesis by blast
    qed
  qed simp_all
next
  assume "\<exists>xs ys. t = xs @ str ''\<newline>\<newline>\<newline>'' @ ys"
  then obtain xs ys where t: "t = xs @ (str ''\<newline>\<newline>\<newline>'' @ ys)" by auto
  have "tripleNewline (str ''\<newline>\<newline>\<newline>'')" by (simp add: str_def)
  then have "tripleNewline (str ''\<newline>\<newline>\<newline>'' @ ys)" by (intro tripleNewline_append) simp
  then show "tripleNewline t" unfolding t by (intro tripleNewline_append) simp
qed

lemma newlineRe_hd:
  "s \<noteq> [] \<Longrightarrow> newlineRe_ReplaceAllString s \<noteq> [] \<and> hd (newlineRe_ReplaceAllString s) = hd s"
  by (induction s rule: newlineRe_ReplaceAllString.induct) auto

lemma tripleNewline_two:
  "r = [] \<or> hd r \<noteq> 0x0A \<Longrightarrow> tripleNewline (0x0A # 0x0A # r) = tripleNewline r"
  by (cases r rule: tripleNewline.cases) auto

lemma tripleNewline_Cons:
  "\<not> (a = 0x0A \<and> hd r = 0x0A) \<Longrightarrow> r \<noteq> [] \<Longrightarrow> tripleNewline (a # r) = tripleNewline r"
  by (cases r rule: tripleNewline.cases) auto

lemma newlineRe_no_triple: "\<not> tripleNewline (newlineRe_ReplaceAllString s)"
proof (induction s rule: newlineRe_ReplaceAllString.induct)
  case 1
  show ?case by simp
next
  case (2 a)
  show ?case by simp
next
  case (3 a b cs)
  show ?case
  proof (cases "a = 0x0A \<and> b = 0x0A")
    case True
    let ?r = "dropWhile (\<lambda>r. r = 0x0A) cs"
    have "?r = [] \<or> hd ?r \<noteq> 0x0A" using hd_dropWhile [of "\<lambda>r. r = 0x0A" cs] by auto
    then have "newlineRe_ReplaceAllString ?r = [] \<or> hd (newlineRe_ReplaceAllString ?r) \<noteq> 0x0A"
    proof
      assume "?r = []"
      then show ?thesis by (simp only: newlineRe_ReplaceAllString.simps simp_thms)
    next
      assume h: "hd ?r \<noteq> 0x0A"
      show ?thesis
      proof (cases "?r = []")
        case True
        then show ?thesis by (simp only: newlineRe_ReplaceAllString.simps simp_thms)
      next
        case False
        from newlineRe_hd [OF False] h show ?thesis by (simp only: simp_thms)
      qed
    qed
    from tripleNewline_two [OF this] 3(1) True show ?thesis by simp
  next
    case False
    from newlineRe_hd [of "b # cs"] have
      "newlineRe_ReplaceAllString (b # cs) \<noteq> []" "hd (newlineRe_ReplaceAllString (b # cs)) = b"
      by simp_all
    with False 3(2) tripleNewline_Cons [of a "newlineRe_ReplaceAllString (b # cs)"]
    show ?thesis by auto
  qed
qed

lemma TrimSpace_no_triple: "\<not> tripleNewline s \<Longrightarrow> \<not> tripleNewline (TrimSpace s)"
proof -
  assume n: "\<not> tripleNewline s"
  let ?u = "dropWhile IsSpace s"
  let ?v = "dropWhile IsSpace (rev ?u)"
  have u: "?u = rev ?v @ rev (takeWhile IsSpace (rev ?u))"
    by (metis rev_append rev_rev_ident takeWhile_dropWhile_id)
  have s: "s = takeWhile IsSpace s @ ?u" by simp
  have "\<not> tripleNewline ?u" using n tripleNewline_append [of "takeWhile IsSpace s" ?u] s by auto
  then have "\<not> tripleNewline (rev ?v)"
    using tripleNewline_append [of "rev ?v" "rev (takeWhile IsSpace (rev ?u))"] u by auto
  then show ?thesis by (simp add: TrimSpace_def)
qed

lemma normalizeText_post:
  "(normalizeText s = [] \<or> (\<not> IsSpace (hd (normalizeText s)) \<and> \<not> IsSpace (last (normalizeText s))))
   \<and> \<not> (\<exists>xs ys. normalizeText s = xs @ str ''\<newline>\<newline>\<newline>'' @ ys)"
  using TrimSpace_ends [of "newlineRe_ReplaceAllString (ReplaceAll s (str ''\<newline> '') (str ''\<newline>''))"]
    TrimSpace_no_triple [OF newlineRe_no_triple, of "ReplaceAll s (str ''\<newline> '') (str ''\<newline>'')"]
  unfolding tripleNewline_iff normalizeText_def by blast

lemma FromHTMLNode_text:
  "FromHTMLNode tw doc os g = Inr (text, g') \<Longrightarrow> \<exists>b. text = normalizeText b"
  by (auto simp: FromHTMLNode_def FromHTMLNode_body_def andThen_def Let_def split: sum.splits)

lemma FromHTMLNode_buffer_text:
  "FromHTMLNode tw doc os g = Inr (text, g') \<Longrightarrow>
   \<exists>b. FromHTMLNode_buffer tw doc os g = Inr b \<and> text = normalizeText b"
  by (auto simp: FromHTMLNode_def FromHTMLNode_body_def FromHTMLNode_buffer_def andThen_def Let_def
      split: sum.splits)

text \<open>
  C8, as the code has it: the text a render returns has no white space at its start or its
  end and no run of three or more newlines.
\<close>

theorem FromHTMLNode_normalized:
  assumes "FromHTMLNode tw doc os g = Inr (text, g')"
  shows "(text = [] \<or> (\<not> IsSpace (hd text) \<and> \<not> IsSpace (last text)))
         \<and> \<not> (\<exists>xs ys. text = xs @ str ''\<newline>\<newline>\<newline>'' @ ys)"
proof -
  from FromHTMLNode_text [OF assms] obtain b where "text = normalizeText b" ..
  with normalizeText_post [of b] show ?thesis by simp
qed

theorem FromHTMLNode_normalized_witness:
  "FromHTMLNode plainTable (element Div [] [textNode ''a'', element Br [] [], element Br [] [],
       element Br [] [], element Br [] [], textNode ''b '']) [] newLinkAccumulator
     = Inr (str ''a\<newline>\<newline>b'', newLinkAccumulator)
   \<and> \<not> IsSpace (hd (str ''a\<newline>\<newline>b'')) \<and> \<not> IsSpace (last (str ''a\<newline>\<newline>b''))
   \<and> \<not> (\<exists>xs ys. str ''a\<newline>\<newline>b'' = xs @ str ''\<newline>\<newline>\<newline>'' @ ys)"
proof -
  have r: "FromHTMLNode plainTable (element Div [] [textNode ''a'', element Br [] [], element Br [] [],
       element Br [] [], element Br [] [], textNode ''b '']) [] newLinkAccumulator
     = Inr (str ''a\<newline>\<newline>b'', newLinkAccumulator)"
    by code_simp
  from FromHTMLNode_normalized [OF r] r show ?thesis by (simp add: str_def)
qed

text \<open>
  The third part of the claim fails: a space before a newline stays in the text returned.
  And a run of newlines is not always collapsed to two: the buffer of the second render ends
  in a run of six, of which the text returned keeps none.
\<close>

theorem space_before_newline_counterexample:
  "FromHTMLNode plainTable (element Pre [] [textNode ''a \<newline>b'']) [] newLinkAccumulator
     = Inr (str ''```\<newline>a \<newline>b\<newline>```'', newLinkAccumulator)
   \<and> take 2 (drop 5 (str ''```\<newline>a \<newline>b\<newline>```'')) = str '' \<newline>''
   \<and> FromHTMLNode_buffer plainTable
       (element Div [] [element P [] [textNode ''a''], element P [] [textNode ''b'']])
       [] newLinkAccumulator
     = Inr (str ''\<newline>\<newline>a\<newline>\<newline>\<newline>\<newline>b\<newline>\<newline>\<newline>\<newline>\<newline>\<newline>'')
   \<and> FromHTMLNode plainTable
       (element Div [] [element P [] [textNode ''a''], element P [] [textNode ''b'']])
       [] newLinkAccumulator
     = Inr (str ''a\<newline>\<newline>b'', newLinkAccumulator)"
  by code_simp

section \<open>Successive renders\<close>

text \<open>
  C1: the accumulator is a variable of the package and no render resets it. The second of
  two renders of the same tree with the same options starts from the accumulator the first
  has left and numbers its citation 2.
\<close>

theorem FromHTMLNode_twice:
  "FromHTMLNode plainTable
       (element A [(str ''href'', str ''http://example.com/'')] [textNode ''Link''])
       [exampleOptions] newLinkAccumulator
     = Inr (str ''Link [1]\<newline>\<newline>=> http://example.com/ [1] Link'',
            \<lparr>emitParaCount = 0,
             linkArray = [\<lparr>index = 1, url = str ''http://example.com/'', display = str ''Link''\<rparr>],
             flushedToIndex = 0, tableNestLevel = 0,
             written = [\<lparr>index = 1, url = str ''http://example.com/'', display = str ''Link''\<rparr>]\<rparr>)
   \<and> FromHTMLNode plainTable
       (element A [(str ''href'', str ''http://example.com/'')] [textNode ''Link''])
       [exampleOptions]
       \<lparr>emitParaCount = 0,
        linkArray = [\<lparr>index = 1, url = str ''http://example.com/'', display = str ''Link''\<rparr>],
        flushedToIndex = 0, tableNestLevel = 0,
        written = [\<lparr>index = 1, url = str ''http://example.com/'', display = str ''Link''\<rparr>]\<rparr>
     = Inr (str ''Link [2]\<newline>\<newline>=> http://example.com/ [2] Link'',
            \<lparr>emitParaCount = 0,
             linkArray = [\<lparr>index = 1, url = str ''http://example.com/'', display = str ''Link''\<rparr>,
                          \<lparr>index = 2, url = str ''http://example.com/'', display = str ''Link''\<rparr>],
             flushedToIndex = 1, tableNestLevel = 0,
             written = [\<lparr>index = 1, url = str ''http://example.com/'', display = str ''Link''\<rparr>,
                        \<lparr>index = 2, url = str ''http://example.com/'', display = str ''Link''\<rparr>]\<rparr>)"
  by code_simp

section \<open>Preformatted blocks\<close>






section \<open>Invariants of the accumulator\<close>

text \<open>
  The state of the accumulator between two operations: \<open>flushedToIndex\<close> is the position of
  a citation of the array, or \<open>-1\<close>, and the citations written so far are those up to it.
\<close>

definition accInv :: "linkAccumulatorType \<Rightarrow> bool" where
  "accInv g = (- 1 \<le> flushedToIndex g \<and> flushedToIndex g < int (length (linkArray g))
     \<and> written g = take (nat (flushedToIndex g + 1)) (linkArray g))"

text \<open>
  Citations numbered \<open>i\<close>, \<open>i + 1\<close>, ... in order, in the arithmetic of \<open>int\<close>, none of them to
  an empty url or to a fragment of the same page.
\<close>

fun numbered :: "int \<Rightarrow> citationLink list \<Rightarrow> bool" where
  "numbered i [] = True"
| "numbered i (link # links) =
     (index link = wrap64 i \<and> url link \<noteq> [] \<and> take 1 (url link) \<noteq> str ''#''
      \<and> numbered (i + 1) links)"

text \<open>
  What a step of the render may do to the options and the accumulator: the options stay,
  the table nesting level moves by \<open>k\<close>, citations are only appended, numbered from the length
  of the array plus \<open>CitationStart\<close>, and the invariant is kept with \<open>flushedToIndex\<close> not
  decreasing.
\<close>

definition Eff ::
  "int \<Rightarrow> ('a Options_scheme, 'z) textifyTraverseContext_scheme
   \<Rightarrow> ('a Options_scheme, 'y) textifyTraverseContext_scheme \<Rightarrow> bool" where
  "Eff k c c' =
     (options c' = options c
      \<and> tableNestLevel (linkAccumulator c') = tableNestLevel (linkAccumulator c) + k
      \<and> (\<exists>new. linkArray (linkAccumulator c') = linkArray (linkAccumulator c) @ new
            \<and> numbered (int (length (linkArray (linkAccumulator c))) + CitationStart (options c)) new)
      \<and> (accInv (linkAccumulator c) \<longrightarrow>
            accInv (linkAccumulator c')
            \<and> flushedToIndex (linkAccumulator c) \<le> flushedToIndex (linkAccumulator c')))"

text \<open>A traversal of children, or a rendering of cells, every run of which is such a step.\<close>

definition keeps ::
  "(('a Options_scheme, 'z) textifyTraverseContext_scheme
     \<Rightarrow> panic + ('a Options_scheme, 'z) textifyTraverseContext_scheme) \<Rightarrow> bool" where
  "keeps f = (\<forall>x y. f x = Inr y \<longrightarrow> Eff 0 x y)"

definition keepsR ::
  "(('a Options_scheme, 'z) textifyTraverseContext_scheme
     \<Rightarrow> panic + (gostring \<times> ('a Options_scheme, 'z) textifyTraverseContext_scheme)) \<Rightarrow> bool" where
  "keepsR f = (\<forall>x s y. f x = Inr (s, y) \<longrightarrow> Eff 0 x y)"

lemma numbered_append:
  "numbered i (xs @ ys) = (numbered i xs \<and> numbered (i + int (length xs)) ys)"
  by (induction xs arbitrary: i) (auto simp: algebra_simps)

lemma Eff_refl: "Eff 0 c c"
  by (simp add: Eff_def)

lemma Eff_trans:
  assumes "Eff j a b" and "Eff k b c"
  shows "Eff (j + k) a c"
proof -
  from assms(1) obtain n1 where
    1: "options b = options a"
       "tableNestLevel (linkAccumulator b) = tableNestLevel (linkAccumulator a) + j"
       "linkArray (linkAccumulator b) = linkArray (linkAccumulator a) @ n1"
       "numbered (int (length (linkArray (linkAccumulator a))) + CitationStart (options a)) n1"
       "accInv (linkAccumulator a) \<longrightarrow> accInv (linkAccumulator b)
          \<and> flushedToIndex (linkAccumulator a) \<le> flushedToIndex (linkAccumulator b)"
    unfolding Eff_def by blast
  from assms(2) obtain n2 where
    2: "options c = options b"
       "tableNestLevel (linkAccumulator c) = tableNestLevel (linkAccumulator b) + k"
       "linkArray (linkAccumulator c) = linkArray (linkAccumulator b) @ n2"
       "numbered (int (length (linkArray (linkAccumulator b))) + CitationStart (options b)) n2"
       "accInv (linkAccumulator b) \<longrightarrow> accInv (linkAccumulator c)
          \<and> flushedToIndex (linkAccumulator b) \<le> flushedToIndex (linkAccumulator c)"
    unfolding Eff_def by blast
  have "linkArray (linkAccumulator c) = linkArray (linkAccumulator a) @ (n1 @ n2)"
    using 1(3) 2(3) by simp
  moreover have "numbered (int (length (linkArray (linkAccumulator a))) + CitationStart (options a)) (n1 @ n2)"
    using 1(1,3,4) 2(4) by (simp add: numbered_append algebra_simps)
  ultimately have "\<exists>new. linkArray (linkAccumulator c) = linkArray (linkAccumulator a) @ new
      \<and> numbered (int (length (linkArray (linkAccumulator a))) + CitationStart (options a)) new"
    by blast
  with 1(1,2,5) 2(1,2,5) show ?thesis unfolding Eff_def by auto
qed

lemma Eff_then: "Eff k a b \<Longrightarrow> Eff 0 b c \<Longrightarrow> Eff k a c"
  using Eff_trans [of k a b 0 c] by simp

lemma Eff_same:
  "options c' = options c \<Longrightarrow> linkAccumulator c' = linkAccumulator c \<Longrightarrow> Eff 0 c c'"
  by (simp add: Eff_def)

lemma Eff_cong_right:
  "options c'' = options c' \<Longrightarrow> linkAccumulator c'' = linkAccumulator c' \<Longrightarrow> Eff k c c' \<Longrightarrow> Eff k c c''"
  by (simp add: Eff_def)

lemma Eff_cong_left:
  "options c'' = options c \<Longrightarrow> linkAccumulator c'' = linkAccumulator c \<Longrightarrow> Eff k c c' \<Longrightarrow> Eff k c'' c'"
  by (simp add: Eff_def)

lemma Eff_emit: "emit d x = Inr y \<Longrightarrow> Eff k c x \<Longrightarrow> Eff k c y"
  using emit_frame [of d x y] by (auto intro: Eff_cong_right)

lemma Eff_level:
  "Eff k c x \<Longrightarrow>
   linkAccumulator y = (linkAccumulator x)\<lparr>tableNestLevel := tableNestLevel (linkAccumulator x) + j\<rparr> \<Longrightarrow>
   options y = options x \<Longrightarrow> Eff (k + j) c y"
  by (simp add: Eff_def accInv_def)

lemma Eff_forceFlush: "Eff k c x \<Longrightarrow> Eff k c (forceFlushGeminiCitations x)"
proof -
  have "Eff 0 x (forceFlushGeminiCitations x)"
    by (auto simp: Eff_def forceFlushGeminiCitations_eq accInv_def)
  then show "Eff k c x \<Longrightarrow> Eff k c (forceFlushGeminiCitations x)" by (rule Eff_then [rotated])
qed

lemma Eff_FlushCitations: "Eff k c x \<Longrightarrow> Eff k c (FlushCitations x)"
  by (simp add: FlushCitations_def emitGeminiCitations_def Eff_forceFlush)

lemma Eff_CheckFlushCitations: "Eff k c x \<Longrightarrow> Eff k c (CheckFlushCitations x)"
proof -
  have "Eff 0 x (x\<lparr>linkAccumulator := (linkAccumulator x)
                 \<lparr>emitParaCount := emitParaCount (linkAccumulator x) + 1\<rparr>\<rparr>)"
    by (simp add: Eff_def accInv_def)
  then show "Eff k c x \<Longrightarrow> Eff k c (CheckFlushCitations x)"
    by (auto simp: CheckFlushCitations_def Eff_FlushCitations intro: Eff_then)
qed

lemma Eff_addGeminiCitation:
  assumes "addGeminiCitation u d x = Inr (m, y)" and "Eff k c x"
  shows "Eff k c y"
proof -
  have "Eff 0 x y"
    using assms(1)
    by (auto simp: addGeminiCitation_def Eff_def accInv_def Let_def split: if_splits)
  with assms(2) show ?thesis by (rule Eff_then)
qed

lemma Eff_citeAttr:
  assumes "citeAttr v t x = Inr (m, y)" and "Eff k c x"
  shows "Eff k c y"
  using assms by (auto simp: citeAttr_def Let_def split: if_splits intro: Eff_addGeminiCitation)
lemma andThenE:
  assumes "andThen m f = Inr y"
  obtains x where "m = Inr x" and "f x = Inr y"
  using assms by (cases m) (simp_all add: andThen_def)

lemma Eff_updates [simp]:
  "Eff k c (x\<lparr>buf := b\<rparr>) = Eff k c x"
  "Eff k c (x\<lparr>prefix := p\<rparr>) = Eff k c x"
  "Eff k c (x\<lparr>tableCtx := t\<rparr>) = Eff k c x"
  "Eff k c (x\<lparr>endsWithSpace := e\<rparr>) = Eff k c x"
  "Eff k c (x\<lparr>justClosedDiv := j\<rparr>) = Eff k c x"
  "Eff k c (x\<lparr>blockquoteLevel := q\<rparr>) = Eff k c x"
  "Eff k c (x\<lparr>lineLength := n\<rparr>) = Eff k c x"
  "Eff k c (x\<lparr>isPre := i\<rparr>) = Eff k c x"
  by (simp_all add: Eff_def)

lemma Eff_updates_left [simp]:
  "Eff k (x\<lparr>buf := b\<rparr>) c = Eff k x c"
  "Eff k (x\<lparr>prefix := p\<rparr>) c = Eff k x c"
  "Eff k (x\<lparr>tableCtx := t\<rparr>) c = Eff k x c"
  "Eff k (x\<lparr>endsWithSpace := e\<rparr>) c = Eff k x c"
  "Eff k (x\<lparr>justClosedDiv := j\<rparr>) c = Eff k x c"
  "Eff k (x\<lparr>blockquoteLevel := q\<rparr>) c = Eff k x c"
  "Eff k (x\<lparr>lineLength := n\<rparr>) c = Eff k x c"
  "Eff k (x\<lparr>isPre := i\<rparr>) c = Eff k x c"
  by (simp_all add: Eff_def)

lemma paragraphHandler_Eff:
  assumes ktc: "keeps tc"
    and h: "paragraphHandler tc x = Inr y" and e: "Eff k c x"
  shows "Eff k c y"
proof -
  from ktc have tc: "\<And>x y. tc x = Inr y \<Longrightarrow> Eff 0 x y"
    unfolding keeps_def by blast
  from h obtain x1 x2 where
    1: "emit (str ''\<newline>\<newline>'') (CheckFlushCitations x) = Inr x1" and
    2: "tc x1 = Inr x2" and 3: "emit (str ''\<newline>\<newline>'') x2 = Inr y"
    unfolding paragraphHandler_def by (elim andThenE)
  from e have "Eff k c (CheckFlushCitations x)" by (rule Eff_CheckFlushCitations)
  with 1 have "Eff k c x1" by (rule Eff_emit)
  with tc [OF 2] have "Eff k c x2" by (rule Eff_then [rotated])
  with 3 show ?thesis by (rule Eff_emit)
qed

lemma handleTableElement_Eff:
  assumes ktc: "keeps tc"
    and krc: "keepsR rc"
    and h: "handleTableElement tw tc rc node x = Inr y" and e: "Eff k c x"
  shows "Eff k c y"
proof -
  from ktc have tc: "\<And>x y. tc x = Inr y \<Longrightarrow> Eff 0 x y"
    unfolding keeps_def by blast
  from krc have rc: "\<And>x s y. rc x = Inr (s, y) \<Longrightarrow> Eff 0 x y"
    unfolding keepsR_def by blast
  have tcF: "\<And>j a b. tc a = Inr b \<Longrightarrow> Eff j c a \<Longrightarrow> Eff j c b"
    using tc Eff_then by blast
  have rcF: "\<And>j a s b. rc a = Inr (s, b) \<Longrightarrow> Eff j c a \<Longrightarrow> Eff j c b"
    using rc Eff_then by blast
  from h have p: "PrettyTables (options x)"
    by (auto simp: handleTableElement_def split: if_splits)
  show ?thesis
  proof (cases "DataAtom node = Table")
    case True
    let ?up = "\<lambda>z. z\<lparr>linkAccumulator := (linkAccumulator z)
                            \<lparr>tableNestLevel := tableNestLevel (linkAccumulator z) + 1\<rparr>,
                          tableCtx := init (tableCtx z)\<rparr>"
    let ?down = "\<lambda>z. z\<lparr>linkAccumulator := (linkAccumulator z)
                           \<lparr>tableNestLevel := tableNestLevel (linkAccumulator z) - 1\<rparr>\<rparr>"
    from h p True obtain x1 x2 x3 where
      1: "(if tableNestLevel (linkAccumulator x) = 0
                   then emit (str ''\<newline>\<newline>```\<newline>'') x
                   else emit (str ''\<newline>\<newline>'') x) = Inr x1" and
      2: "tc (?up x1) = Inr x2" and
      3: "emit (tw (PrettyTablesOptions (options x2)) (header (tableCtx x2))
                          (footer (tableCtx x2)) (body (tableCtx x2))) x2 = Inr x3" and
      4: "(if tableNestLevel (linkAccumulator (?down x3)) = 0
              then emit (str ''```\<newline>\<newline>'') (?down x3)
              else emit (str ''\<newline>\<newline>'') (?down x3)) = Inr y"
      unfolding handleTableElement_def by (simp add: Let_def) (elim andThenE, blast)
    from 1 e have "Eff k c x1" by (auto split: if_splits intro: Eff_emit)
    then have "Eff (k + 1) c (?up x1)" by (rule Eff_level) simp_all
    with 2 have "Eff (k + 1) c x2" by (rule tcF)
    with 3 have "Eff (k + 1) c x3" by (rule Eff_emit)
    then have "Eff (k + 1 + (- 1)) c (?down x3)" by (rule Eff_level) simp_all
    then have "Eff k c (?down x3)" by simp
    with 4 show ?thesis by (auto split: if_splits intro: Eff_emit)
  next
    case False
    with h p e show ?thesis
      unfolding handleTableElement_def
      apply (cases "DataAtom node")
      apply (auto elim!: andThenE split: if_splits prod.splits dest!: tc rc intro: Eff_then)
      apply (erule (1) Eff_then)+
      done
  qed
qed
lemma emit_Eff0: "emit d x = Inr y \<Longrightarrow> Eff 0 x y"
  using Eff_emit [OF _ Eff_refl] .

lemma citeAttr_Eff0: "citeAttr v t x = Inr (m, y) \<Longrightarrow> Eff 0 x y"
  using Eff_citeAttr [OF _ Eff_refl] .

lemma heading_Eff:
  assumes ktc: "keeps tc"
    and h: "andThen (emit d (FlushCitations x)) (\<lambda>ctx. andThen (tc ctx) (\<lambda>ctx. emit d' ctx)) = Inr y"
  shows "Eff 0 x y"
proof -
  from ktc have tc: "\<And>x y. tc x = Inr y \<Longrightarrow> Eff 0 x y"
    unfolding keeps_def by blast
  from h obtain x1 x2 where 1: "emit d (FlushCitations x) = Inr x1" and 2: "tc x1 = Inr x2"
    and 3: "emit d' x2 = Inr y"
    by (elim andThenE)
  have "Eff 0 x (FlushCitations x)" by (rule Eff_FlushCitations [OF Eff_refl])
  with 1 have "Eff 0 x x1" by (rule Eff_emit)
  with tc [OF 2] have "Eff 0 x x2" by (rule Eff_then [rotated])
  with 3 show ?thesis by (rule Eff_emit)
qed

lemma blockquote_Eff:
  assumes ktc: "keeps tc"
    and h: "andThen (Repeat s (blockquoteLevel x + 1)) (\<lambda>marks.
              andThen (emit d1 (x\<lparr>blockquoteLevel := blockquoteLevel x + 1, prefix := marks @ p\<rparr>)) (\<lambda>ctx.
              andThen (if blockquoteLevel ctx = 1 then emit d2 ctx else Inr ctx) (\<lambda>ctx.
              andThen (tc ctx) (\<lambda>ctx.
              andThen (Repeat s (blockquoteLevel ctx - 1)) (\<lambda>marks.
                  emit d3
                    (ctx\<lparr>blockquoteLevel := blockquoteLevel ctx - 1,
                         prefix := (if 0 < blockquoteLevel ctx - 1 then marks @ p else marks)\<rparr>)))))) = Inr y"
  shows "Eff 0 x y"
proof -
  from ktc have tc: "\<And>x y. tc x = Inr y \<Longrightarrow> Eff 0 x y"
    unfolding keeps_def by blast
  from h obtain m1 x1 x2 x3 m2 where
    1: "emit d1 (x\<lparr>blockquoteLevel := blockquoteLevel x + 1, prefix := m1 @ p\<rparr>) = Inr x1"
    and 2: "(if blockquoteLevel x1 = 1 then emit d2 x1 else Inr x1) = Inr x2"
    and 3: "tc x2 = Inr x3"
    and 4: "emit d3 (x3\<lparr>blockquoteLevel := blockquoteLevel x3 - 1,
                         prefix := (if 0 < blockquoteLevel x3 - 1 then m2 @ p else m2)\<rparr>) = Inr y"
    by (elim andThenE)
  have "Eff 0 x (x\<lparr>blockquoteLevel := blockquoteLevel x + 1, prefix := m1 @ p\<rparr>)"
    by (simp add: Eff_refl)
  with 1 have "Eff 0 x x1" by (rule Eff_emit)
  with 2 have "Eff 0 x x2" by (auto split: if_splits intro: Eff_emit)
  with tc [OF 3] have "Eff 0 x x3" by (rule Eff_then [rotated])
  then have "Eff 0 x (x3\<lparr>blockquoteLevel := blockquoteLevel x3 - 1,
                         prefix := (if 0 < blockquoteLevel x3 - 1 then m2 @ p else m2)\<rparr>)"
    by simp
  with 4 show ?thesis by (rule Eff_emit)
qed

lemma tableElement_Eff:
  assumes ktc: "keeps tc"
    and krc: "keepsR rc"
    and h: "(if PrettyTables (options x)
            then handleTableElement tw tc rc node x
            else if DataAtom node = Table
            then andThen (emit d x) (\<lambda>ctx. paragraphHandler tc ctx)
            else andThen (if DataAtom node = Tr then emit d' x else Inr x) (\<lambda>ctx. tc ctx)) = Inr y"
  shows "Eff 0 x y"
proof -
  from ktc have tc: "\<And>x y. tc x = Inr y \<Longrightarrow> Eff 0 x y"
    unfolding keeps_def by blast
  from krc have rc: "\<And>x s y. rc x = Inr (s, y) \<Longrightarrow> Eff 0 x y"
    unfolding keepsR_def by blast
  show ?thesis
  proof (cases "PrettyTables (options x)")
  case True
  with h have "handleTableElement tw tc rc node x = Inr y" by simp
  then show ?thesis by (rule handleTableElement_Eff [OF ktc krc _ Eff_refl])
next
  case False
  show ?thesis
  proof (cases "DataAtom node = Table")
    case True
    with h False obtain x1 where 1: "emit d x = Inr x1" and 2: "paragraphHandler tc x1 = Inr y"
      by (auto elim: andThenE)
    from 1 have "Eff 0 x x1" by (rule emit_Eff0)
    with 2 show ?thesis by (rule paragraphHandler_Eff [OF ktc])
  next
    case nt: False
    with h False obtain x1 where 1: "(if DataAtom node = Tr then emit d' x else Inr x) = Inr x1"
      and 2: "tc x1 = Inr y"
      by (auto elim: andThenE)
    from 1 have "Eff 0 x x1" by (auto split: if_splits intro: emit_Eff0 Eff_refl)
    with tc [OF 2] show ?thesis by (rule Eff_then [rotated])
  qed
qed
qed

lemma handleElement_Eff:
  assumes ktc: "keeps tc"
    and krc: "keepsR rc"
    and h: "handleElement tw tc rc node x = Inr y"
  shows "Eff 0 x y"
proof -
  from ktc have tc: "\<And>x y. tc x = Inr y \<Longrightarrow> Eff 0 x y"
    unfolding keeps_def by blast
  from krc have rc: "\<And>x s y. rc x = Inr (s, y) \<Longrightarrow> Eff 0 x y"
    unfolding keepsR_def by blast
  let ?x = "x\<lparr>justClosedDiv := False\<rparr>"
  have x: "\<And>z. Eff 0 ?x z \<Longrightarrow> Eff 0 x z" by simp
  note hd = heading_Eff [OF ktc, THEN x]
  note tb = tableElement_Eff [OF ktc krc, THEN x]
  note ph = paragraphHandler_Eff [OF ktc _ Eff_refl, THEN x]
  show ?thesis
  proof (cases "DataAtom node")
    case Br
    with h show ?thesis by (auto simp: handleElement_def dest!: emit_Eff0)
  next
    case H1
    with h have "andThen (emit (str ''\<newline>'' @ headingPrefix (DataAtom node)) (FlushCitations ?x))
        (\<lambda>ctx. andThen (tc ctx) (\<lambda>ctx. emit (str ''\<newline>'') ctx)) = Inr y"
      by (simp add: handleElement_def Let_def)
    then show ?thesis by (rule hd)
  next
    case H2
    with h have "andThen (emit (str ''\<newline>'' @ headingPrefix (DataAtom node)) (FlushCitations ?x))
        (\<lambda>ctx. andThen (tc ctx) (\<lambda>ctx. emit (str ''\<newline>'') ctx)) = Inr y"
      by (simp add: handleElement_def Let_def)
    then show ?thesis by (rule hd)
  next
    case H3
    with h have "andThen (emit (str ''\<newline>'' @ headingPrefix (DataAtom node)) (FlushCitations ?x))
        (\<lambda>ctx. andThen (tc ctx) (\<lambda>ctx. emit (str ''\<newline>'') ctx)) = Inr y"
      by (simp add: handleElement_def Let_def)
    then show ?thesis by (rule hd)
  next
    case Blockquote
    let ?f = "FlushCitations ?x"
    from Blockquote h have "andThen (Repeat (str ''>'') (blockquoteLevel ?f + 1)) (\<lambda>marks.
              andThen (emit (str ''\<newline>'') (?f\<lparr>blockquoteLevel := blockquoteLevel ?f + 1,
                          prefix := marks @ str '' ''\<rparr>)) (\<lambda>ctx.
              andThen (if blockquoteLevel ctx = 1 then emit (str ''\<newline>'') ctx else Inr ctx) (\<lambda>ctx.
              andThen (tc ctx) (\<lambda>ctx.
              andThen (Repeat (str ''>'') (blockquoteLevel ctx - 1)) (\<lambda>marks.
                  emit (str ''\<newline>\<newline>'')
                    (ctx\<lparr>blockquoteLevel := blockquoteLevel ctx - 1,
                         prefix := (if 0 < blockquoteLevel ctx - 1 then marks @ str '' '' else marks)\<rparr>)))))) = Inr y"
      by (simp add: handleElement_def Let_def)
    then have "Eff 0 ?f y" by (rule blockquote_Eff [OF ktc])
    moreover have "Eff 0 x ?f" by (rule Eff_FlushCitations) (simp add: Eff_refl)
    ultimately show ?thesis by (rule Eff_then [rotated])
  next
    case Div
    with h obtain x1 x2 x3 where
      1: "(if 0 < lineLength ?x then emit (str ''\<newline>'') ?x else Inr ?x) = Inr x1"
      and 2: "tc x1 = Inr x2"
      and 3: "(if \<not> justClosedDiv x2 then emit (str ''\<newline>'') x2 else Inr x2) = Inr x3"
      and 4: "y = x3\<lparr>justClosedDiv := True\<rparr>"
      by (auto simp: handleElement_def Let_def elim!: andThenE)
    from 1 have "Eff 0 x x1" by (auto split: if_splits dest!: emit_Eff0 simp: Eff_refl)
    with tc [OF 2] have "Eff 0 x x2" by (rule Eff_then [rotated])
    with 3 have "Eff 0 x x3" by (auto split: if_splits intro: Eff_emit)
    with 4 show ?thesis by simp
  next
    case Li
    with h obtain x1 x2 where 1: "emit (str ''* '') ?x = Inr x1" and 2: "tc x1 = Inr x2"
      and 3: "emit (str ''\<newline>'') x2 = Inr y"
      by (auto simp: handleElement_def Let_def elim!: andThenE)
    from 1 have "Eff 0 x x1" by (auto dest!: emit_Eff0)
    with tc [OF 2] have "Eff 0 x x2" by (rule Eff_then [rotated])
    with 3 show ?thesis by (rule Eff_emit)
  next
    case Img
    show ?thesis
    proof (cases "EmitImagesAsLinks (options x)")
      case True
      with h Img obtain x1 m x2 where 1: "emit (imgAltText (options x) node) ?x = Inr x1"
        and 2: "citeAttr (getAttrVal node (str ''src'')) (imgAltText (options x) node) x1 = Inr (m, x2)"
        and 3: "emit m x2 = Inr y"
        by (auto simp: handleElement_def Let_def elim!: andThenE split: prod.splits)
      from 1 have "Eff 0 x x1" by (auto dest!: emit_Eff0)
      with 2 have "Eff 0 x x2" by (rule Eff_citeAttr)
      with 3 show ?thesis by (rule Eff_emit)
    next
      case False
      with h Img show ?thesis by (auto simp: handleElement_def Let_def dest!: emit_Eff0)
    qed
  next
    case A
    with h obtain x1 t x2 m x3 where 1: "tc ?x = Inr x1"
      and 2: "(case Children node of
                 [] \<Rightarrow> Inr (case Children node of [] \<Rightarrow> [] | [c] \<Rightarrow> if Type c = TextNode then Data c else [] | c # a # list \<Rightarrow> [], x1)
               | [img] \<Rightarrow> if DataAtom img = Img
                          then (let linkText = EmptyLinkPrefix (options x1)
                                in andThen (emit (str '' '' @ linkText) x1) (\<lambda>ctx. Inr (linkText, ctx)))
                          else Inr (case Children node of [] \<Rightarrow> [] | [c] \<Rightarrow> if Type c = TextNode then Data c else [] | c # a # list \<Rightarrow> [], x1)
               | img # a # list \<Rightarrow> Inr (case Children node of [] \<Rightarrow> [] | [c] \<Rightarrow> if Type c = TextNode then Data c else [] | c # a # list \<Rightarrow> [], x1)) = Inr (t, x2)"
      and 3: "citeAttr (getAttrVal node (str ''href'')) t x2 = Inr (m, x3)"
      and 4: "emit m x3 = Inr y"
      by (auto simp: handleElement_def Let_def elim!: andThenE split: prod.splits)
    from tc [OF 1] have "Eff 0 x x1" by simp
    moreover from 2 have "Eff 0 x1 x2"
      by (auto split: list.splits if_splits elim!: andThenE dest!: emit_Eff0 simp: Eff_refl Let_def)
    ultimately have "Eff 0 x x2" by (rule Eff_then)
    with 3 have "Eff 0 x x3" by (rule Eff_citeAttr)
    with 4 show ?thesis by (rule Eff_emit)
  next
    case P
    with h have "paragraphHandler tc ?x = Inr y" by (simp add: handleElement_def Let_def)
    then show ?thesis by (rule ph)
  next
    case Ul
    with h have "paragraphHandler tc ?x = Inr y" by (simp add: handleElement_def Let_def)
    then show ?thesis by (rule ph)
  next
    case Table
    with h have "(if PrettyTables (options ?x)
            then handleTableElement tw tc rc node ?x
            else if DataAtom node = Table
            then andThen (emit (str ''\<newline>\<newline>'' @ [0x229E] @ str '' table '' @ [0x229E] @ str ''\<newline>\<newline>'') ?x)
                   (\<lambda>ctx. paragraphHandler tc ctx)
            else andThen (if DataAtom node = Tr then emit (str ''\<newline>'') ?x else Inr ?x)
                   (\<lambda>ctx. tc ctx)) = Inr y"
      by (simp add: handleElement_def Let_def)
    then show ?thesis by (rule tb)
  next
    case Tfoot
    with h have "(if PrettyTables (options ?x)
            then handleTableElement tw tc rc node ?x
            else if DataAtom node = Table
            then andThen (emit (str ''\<newline>\<newline>'' @ [0x229E] @ str '' table '' @ [0x229E] @ str ''\<newline>\<newline>'') ?x)
                   (\<lambda>ctx. paragraphHandler tc ctx)
            else andThen (if DataAtom node = Tr then emit (str ''\<newline>'') ?x else Inr ?x)
                   (\<lambda>ctx. tc ctx)) = Inr y"
      by (simp add: handleElement_def Let_def)
    then show ?thesis by (rule tb)
  next
    case Th
    with h have "(if PrettyTables (options ?x)
            then handleTableElement tw tc rc node ?x
            else if DataAtom node = Table
            then andThen (emit (str ''\<newline>\<newline>'' @ [0x229E] @ str '' table '' @ [0x229E] @ str ''\<newline>\<newline>'') ?x)
                   (\<lambda>ctx. paragraphHandler tc ctx)
            else andThen (if DataAtom node = Tr then emit (str ''\<newline>'') ?x else Inr ?x)
                   (\<lambda>ctx. tc ctx)) = Inr y"
      by (simp add: handleElement_def Let_def)
    then show ?thesis by (rule tb)
  next
    case Tr
    with h have "(if PrettyTables (options ?x)
            then handleTableElement tw tc rc node ?x
            else if DataAtom node = Table
            then andThen (emit (str ''\<newline>\<newline>'' @ [0x229E] @ str '' table '' @ [0x229E] @ str ''\<newline>\<newline>'') ?x)
                   (\<lambda>ctx. paragraphHandler tc ctx)
            else andThen (if DataAtom node = Tr then emit (str ''\<newline>'') ?x else Inr ?x)
                   (\<lambda>ctx. tc ctx)) = Inr y"
      by (simp add: handleElement_def Let_def)
    then show ?thesis by (rule tb)
  next
    case Td
    with h have "(if PrettyTables (options ?x)
            then handleTableElement tw tc rc node ?x
            else if DataAtom node = Table
            then andThen (emit (str ''\<newline>\<newline>'' @ [0x229E] @ str '' table '' @ [0x229E] @ str ''\<newline>\<newline>'') ?x)
                   (\<lambda>ctx. paragraphHandler tc ctx)
            else andThen (if DataAtom node = Tr then emit (str ''\<newline>'') ?x else Inr ?x)
                   (\<lambda>ctx. tc ctx)) = Inr y"
      by (simp add: handleElement_def Let_def)
    then show ?thesis by (rule tb)
  next
    case Pre
    with h obtain x1 x2 where 1: "emit (str ''```\<newline>'') ?x = Inr x1"
      and 2: "tc (x1\<lparr>isPre := True\<rparr>) = Inr x2"
      and 3: "emit (str ''\<newline>```'') (x2\<lparr>isPre := False\<rparr>) = Inr y"
      by (auto simp: handleElement_def Let_def elim!: andThenE)
    from 1 have "Eff 0 x x1" by (auto dest!: emit_Eff0)
    with tc [OF 2] have "Eff 0 x x2" by (auto intro: Eff_then)
    then have "Eff 0 x (x2\<lparr>isPre := False\<rparr>)" by simp
    with 3 show ?thesis by (rule Eff_emit)
  next
    case Style
    with h show ?thesis by (auto simp: handleElement_def Let_def Eff_refl)
  next
    case Script
    with h show ?thesis by (auto simp: handleElement_def Let_def Eff_refl)
  next
    case Head
    with h show ?thesis by (auto simp: handleElement_def Let_def Eff_refl)
  next
    case Footer
    with h tc [of ?x y] show ?thesis by (auto simp: handleElement_def Let_def)
  next
    case Nav
    with h tc [of ?x y] show ?thesis by (auto simp: handleElement_def Let_def)
  next
    case OtherAtom
    with h tc [of ?x y] show ?thesis by (auto simp: handleElement_def Let_def)
  qed
qed

lemma FromHTMLNode_body_Eff:
  assumes k: "keeps trav" and r: "FromHTMLNode_body trav opts g = Inr (s, g')"
    and o: "options ctx = opts" and l: "linkAccumulator ctx = g"
  shows "Eff 0 ctx (ctx\<lparr>linkAccumulator := g'\<rparr>)"
proof -
  from r obtain y where t: "trav (newContext opts g) = Inr y"
    and g': "g' = linkAccumulator (forceFlushGeminiCitations y)"
    unfolding FromHTMLNode_body_def by (auto elim!: andThenE simp: Let_def)
  from k t have "Eff 0 (newContext opts g) y" unfolding keeps_def by blast
  then have e: "Eff 0 (newContext opts g) (forceFlushGeminiCitations y)" by (rule Eff_forceFlush)
  then have oy: "options (forceFlushGeminiCitations y) = opts" by (simp add: Eff_def newContext_def)
  have "Eff 0 (newContext opts g) (ctx\<lparr>linkAccumulator := g'\<rparr>)"
  proof (rule Eff_cong_right [OF _ _ e])
    show "options (ctx\<lparr>linkAccumulator := g'\<rparr>) = options (forceFlushGeminiCitations y)"
      using oy o by simp
    show "linkAccumulator (ctx\<lparr>linkAccumulator := g'\<rparr>) = linkAccumulator (forceFlushGeminiCitations y)"
      using g' by simp
  qed
  then show ?thesis
  proof (rule Eff_cong_left [rotated 2])
    show "options ctx = options (newContext opts g)" using o by (simp add: newContext_def)
    show "linkAccumulator ctx = linkAccumulator (newContext opts g)" using l by (simp add: newContext_def)
  qed
qed

lemma traverse_Eff_all:
  fixes c c' :: "'a Options_scheme textifyTraverseContext"
  shows "traverse tw n c = Inr c' \<Longrightarrow> Eff 0 c c'"
    and "traverseNodes tw ns c = Inr c' \<Longrightarrow> Eff 0 c c'"
    and "renderNodes tw ns b c = Inr (s, c') \<Longrightarrow> Eff 0 c c'"
proof (induction tw n c and tw ns c and tw ns b c arbitrary: c' and c' and s c'
    rule: traverse_traverseNodes_renderNodes.induct)
  case (1 tw ty a d attrs cs ctx)
  show ?case
  proof (cases ty)
    case TextNode
    with "1.prems" show ?thesis by (auto dest: emit_Eff0)
  next
    case ElementNode
    have k: "keeps (\<lambda>x::'a Options_scheme textifyTraverseContext. traverseNodes tw cs x)"
      by (simp add: keeps_def "1.IH"(3) [OF ElementNode])
    have kr: "keepsR (\<lambda>x::'a Options_scheme textifyTraverseContext. renderNodes tw cs [] x)"
      by (simp add: keepsR_def "1.IH"(4) [OF ElementNode])
    from "1.prems" ElementNode have
      "handleElement tw (\<lambda>x. traverseNodes tw cs x) (\<lambda>x. renderNodes tw cs [] x)
         (Node ty a d attrs cs) ctx = Inr c'"
      by simp
    then show ?thesis by (rule handleElement_Eff [OF k kr])
  next
    case ErrorNode
    with "1.prems" "1.IH"(1) show ?thesis by simp
  next
    case DocumentNode
    with "1.prems" "1.IH"(2) show ?thesis by simp
  next
    case CommentNode
    with "1.prems" "1.IH"(5) show ?thesis by simp
  next
    case DoctypeNode
    with "1.prems" "1.IH"(6) show ?thesis by simp
  qed
next
  case (2 tw ctx)
  then show ?case by (simp add: Eff_refl)
next
  case (3 tw c cs ctx)
  from "3.prems" obtain b where 1: "traverse tw c ctx = Inr b" and 2: "traverseNodes tw cs b = Inr c'"
    by (auto split: sum.splits)
  from "3.IH"(1) [OF 1] "3.IH"(2) [OF 1 2] show ?case by (rule Eff_then)
next
  case (4 tw b ctx)
  then show ?case by (simp add: Eff_refl)
next
  case (5 tw c cs b ctx)
  from "5.prems" obtain s0 g where
    1: "FromHTMLNode_body (traverse tw c) (options ctx) (linkAccumulator ctx) = Inr (s0, g)"
    and 2: "renderNodes tw cs (b @ s0 @ (if cs \<noteq> [] then str ''\<newline>'' else []))
              (ctx\<lparr>linkAccumulator := g\<rparr>) = Inr (s, c')"
    by (auto split: sum.splits prod.splits)
  have k: "keeps (traverse tw c :: 'a Options_scheme textifyTraverseContext \<Rightarrow> _)" by (simp add: keeps_def "5.IH"(1))
  from FromHTMLNode_body_Eff [OF k 1 refl refl] "5.IH"(2) [OF 1 refl 2]
  show ?case by (rule Eff_then)
qed

lemma FromHTMLNode_Eff:
  assumes "FromHTMLNode tw doc os g = Inr (text, g')"
  shows "Eff 0 (newContext (givenOptions os) g) (newContext (givenOptions os) g')"
proof -
  have k: "keeps (traverse tw doc :: Options textifyTraverseContext \<Rightarrow> _)" by (simp add: keeps_def traverse_Eff_all(1))
  from assms have "FromHTMLNode_body (traverse tw doc) (givenOptions os) g = Inr (text, g')"
    by (simp add: FromHTMLNode_def)
  from FromHTMLNode_body_Eff [OF k this, of "newContext (givenOptions os) g"]
  show ?thesis by (simp add: newContext_def)
qed

lemma traverse_monotone:
  fixes c c' :: "'a Options_scheme textifyTraverseContext"
  assumes "traverse tw n c = Inr c'" and "accInv (linkAccumulator c)"
  shows "accInv (linkAccumulator c')
    \<and> flushedToIndex (linkAccumulator c) \<le> flushedToIndex (linkAccumulator c')"
  using traverse_Eff_all(1) [OF assms(1)] assms(2) by (simp add: Eff_def)

lemma forceFlush_all_written:
  assumes "accInv (linkAccumulator y)" and "tableNestLevel (linkAccumulator y) \<le> 0"
  shows "written (linkAccumulator (forceFlushGeminiCitations y))
           = linkArray (linkAccumulator (forceFlushGeminiCitations y))
    \<and> flushedToIndex (linkAccumulator (forceFlushGeminiCitations y))
           = int (length (linkArray (linkAccumulator (forceFlushGeminiCitations y)))) - 1
    \<and> linkArray (linkAccumulator (forceFlushGeminiCitations y)) = linkArray (linkAccumulator y)"
  using assms by (simp add: forceFlushGeminiCitations_eq accInv_def)

lemma FromHTMLNode_final:
  assumes r: "FromHTMLNode tw doc os g = Inr (text, g')" and i: "accInv g" and t: "tableNestLevel g \<le> 0"
  shows "written g' = linkArray g' \<and> flushedToIndex g' = int (length (linkArray g')) - 1"
proof -
  from r obtain y :: "Options textifyTraverseContext" where
    y: "traverse tw doc (newContext (givenOptions os) g) = Inr y"
    and g': "g' = linkAccumulator (forceFlushGeminiCitations y)"
    unfolding FromHTMLNode_def FromHTMLNode_body_def by (auto elim!: andThenE simp: Let_def)
  from traverse_Eff_all(1) [OF y] i t have "accInv (linkAccumulator y)"
    "tableNestLevel (linkAccumulator y) \<le> 0"
    by (simp_all add: Eff_def newContext_def)
  from forceFlush_all_written [OF this] g' show ?thesis by simp
qed

lemma wrap64_id: "- (2 ^ 63) \<le> i \<Longrightarrow> i < 2 ^ 63 \<Longrightarrow> wrap64 i = i"
  by (simp add: wrap64_def)

lemma numbered_nth:
  "numbered i new \<Longrightarrow> j < length new \<Longrightarrow>
   index (new ! j) = wrap64 (i + int j) \<and> url (new ! j) \<noteq> [] \<and> take 1 (url (new ! j)) \<noteq> str ''#''"
proof (induction new arbitrary: i j)
  case Nil
  then show ?case by simp
next
  case (Cons link links)
  show ?case
  proof (cases j)
    case 0
    with Cons.prems show ?thesis by simp
  next
    case (Suc k)
    with Cons.prems have "numbered (i + 1) links" "k < length links" by simp_all
    from Cons.IH [OF this] Suc show ?thesis by (simp add: algebra_simps)
  qed
qed

text \<open>
  C3, as the code has it. \<open>addGeminiCitation\<close>, called with a url that is not empty, registers
  nothing for a url that starts with \<open>#\<close> and returns the empty string; for any other url it
  appends the citation with the index \<open>len(linkArray) + CitationStart\<close>, a sum of two \<open>int\<close>s
  that wraps around, and returns the marker \<open>[index]\<close> when markers are on, the empty string
  otherwise; the second variant does the same and escapes the spaces of the url. The
  citations a render appends to the array carry the indices
  \<open>len(linkArray) + CitationStart\<close>, counted from the array as the render finds it, and none
  is a link to the empty url or to a fragment. As long as the sum does not leave the range of
  an \<open>int\<close>, the indices increase by exactly 1, and the first one is \<open>CitationStart\<close> when the
  render starts with an empty array.
\<close>

theorem citation_registration:
  "(u \<noteq> [] \<longrightarrow>
      (take 1 u = str ''#'' \<longrightarrow>
         addGeminiCitation u d ctx = Inr ([], ctx) \<and> addGeminiCitation2 u d ctx = Inr ([], ctx))
    \<and> (take 1 u \<noteq> str ''#'' \<longrightarrow>
         addGeminiCitation u d ctx =
           Inr (if CitationMarkers (options ctx)
                then str ''['' @ Itoa (wrap64 (int (length (linkArray (linkAccumulator ctx))) + CitationStart (options ctx))) @ str '']''
                else [],
                ctx\<lparr>linkAccumulator := (linkAccumulator ctx)
                  \<lparr>linkArray := linkArray (linkAccumulator ctx)
                     @ [\<lparr>index = wrap64 (int (length (linkArray (linkAccumulator ctx))) + CitationStart (options ctx)),
                         url = u, display = d\<rparr>]\<rparr>\<rparr>)
       \<and> addGeminiCitation2 u d ctx =
           Inr (if CitationMarkers (options ctx)
                then str ''['' @ Itoa (wrap64 (int (length (linkArray (linkAccumulator ctx))) + CitationStart (options ctx))) @ str '']''
                else [],
                ctx\<lparr>linkAccumulator := (linkAccumulator ctx)
                  \<lparr>linkArray := linkArray (linkAccumulator ctx)
                     @ [\<lparr>index = wrap64 (int (length (linkArray (linkAccumulator ctx))) + CitationStart (options ctx)),
                         url = (if List.member u 0x20 then ReplaceAll u (str '' '') (str ''%20'') else u),
                         display = d\<rparr>]\<rparr>\<rparr>)))
   \<and> (FromHTMLNode tw doc os g = Inr (text, g') \<longrightarrow>
        (\<exists>new. linkArray g' = linkArray g @ new
           \<and> (\<forall>j < length new.
                 index (new ! j)
                   = wrap64 (int (length (linkArray g)) + int j + CitationStart (givenOptions os))
                 \<and> url (new ! j) \<noteq> [] \<and> take 1 (url (new ! j)) \<noteq> str ''#'')
           \<and> (- (2 ^ 63) \<le> CitationStart (givenOptions os)
                \<and> int (length (linkArray g')) + CitationStart (givenOptions os) \<le> 2 ^ 63 \<longrightarrow>
               (\<forall>j < length new.
                  index (new ! j) = int (length (linkArray g)) + int j + CitationStart (givenOptions os))
               \<and> (linkArray g = [] \<and> new \<noteq> [] \<longrightarrow> index (hd new) = CitationStart (givenOptions os)))))"
proof (intro conjI impI)
  assume "u \<noteq> []" and "take 1 u = str ''#''"
  then show "addGeminiCitation u d ctx = Inr ([], ctx)" and "addGeminiCitation2 u d ctx = Inr ([], ctx)"
    by (simp_all add: addGeminiCitation_def addGeminiCitation2_def)
next
  assume "u \<noteq> []" and "take 1 u \<noteq> str ''#''"
  then show "addGeminiCitation u d ctx =
           Inr (if CitationMarkers (options ctx)
                then str ''['' @ Itoa (wrap64 (int (length (linkArray (linkAccumulator ctx))) + CitationStart (options ctx))) @ str '']''
                else [],
                ctx\<lparr>linkAccumulator := (linkAccumulator ctx)
                  \<lparr>linkArray := linkArray (linkAccumulator ctx)
                     @ [\<lparr>index = wrap64 (int (length (linkArray (linkAccumulator ctx))) + CitationStart (options ctx)),
                         url = u, display = d\<rparr>]\<rparr>\<rparr>)"
    by (simp add: addGeminiCitation_def formatGeminiCitation_def Let_def)
next
  assume "u \<noteq> []" and "take 1 u \<noteq> str ''#''"
  then show "addGeminiCitation2 u d ctx =
           Inr (if CitationMarkers (options ctx)
                then str ''['' @ Itoa (wrap64 (int (length (linkArray (linkAccumulator ctx))) + CitationStart (options ctx))) @ str '']''
                else [],
                ctx\<lparr>linkAccumulator := (linkAccumulator ctx)
                  \<lparr>linkArray := linkArray (linkAccumulator ctx)
                     @ [\<lparr>index = wrap64 (int (length (linkArray (linkAccumulator ctx))) + CitationStart (options ctx)),
                         url = (if List.member u 0x20 then ReplaceAll u (str '' '') (str ''%20'') else u),
                         display = d\<rparr>]\<rparr>\<rparr>)"
    by (simp add: addGeminiCitation2_def formatGeminiCitation_def Let_def)
next
  assume r: "FromHTMLNode tw doc os g = Inr (text, g')"
  let ?s = "CitationStart (givenOptions os)"
  let ?n = "int (length (linkArray g))"
  from FromHTMLNode_Eff [OF r] obtain new where
    a: "linkArray g' = linkArray g @ new" and n: "numbered (?n + ?s) new"
    by (auto simp: Eff_def newContext_def)
  have w: "\<forall>j < length new.
         index (new ! j) = wrap64 (?n + int j + ?s)
         \<and> url (new ! j) \<noteq> [] \<and> take 1 (url (new ! j)) \<noteq> str ''#''"
    using numbered_nth [OF n] by (simp add: algebra_simps)
  have x: "- (2 ^ 63) \<le> ?s \<and> int (length (linkArray g')) + ?s \<le> 2 ^ 63 \<longrightarrow>
       (\<forall>j < length new. index (new ! j) = ?n + int j + ?s)
       \<and> (linkArray g = [] \<and> new \<noteq> [] \<longrightarrow> index (hd new) = ?s)"
  proof (intro impI, elim conjE)
    assume lo: "- (2 ^ 63) \<le> ?s" and hi: "int (length (linkArray g')) + ?s \<le> 2 ^ 63"
    have e: "\<forall>j < length new. index (new ! j) = ?n + int j + ?s"
    proof (intro allI impI)
      fix j assume j: "j < length new"
      with a hi have "?n + int j + ?s < 2 ^ 63" by simp
      moreover from lo have "- (2 ^ 63) \<le> ?n + int j + ?s" by simp
      ultimately have "wrap64 (?n + int j + ?s) = ?n + int j + ?s" by (intro wrap64_id)
      with w j show "index (new ! j) = ?n + int j + ?s" by simp
    qed
    have "linkArray g = [] \<and> new \<noteq> [] \<longrightarrow> index (hd new) = ?s"
    proof (intro impI, elim conjE)
      assume "linkArray g = []" and "new \<noteq> []"
      with e [rule_format, of 0] show "index (hd new) = ?s" by (simp add: hd_conv_nth)
    qed
    with e show "(\<forall>j < length new. index (new ! j) = ?n + int j + ?s)
       \<and> (linkArray g = [] \<and> new \<noteq> [] \<longrightarrow> index (hd new) = ?s)" ..
  qed
  from a w x show "\<exists>new. linkArray g' = linkArray g @ new
           \<and> (\<forall>j < length new.
                 index (new ! j) = wrap64 (?n + int j + ?s)
                 \<and> url (new ! j) \<noteq> [] \<and> take 1 (url (new ! j)) \<noteq> str ''#'')
           \<and> (- (2 ^ 63) \<le> ?s \<and> int (length (linkArray g')) + ?s \<le> 2 ^ 63 \<longrightarrow>
               (\<forall>j < length new. index (new ! j) = ?n + int j + ?s)
               \<and> (linkArray g = [] \<and> new \<noteq> [] \<longrightarrow> index (hd new) = ?s))"
    by blast
qed

theorem citation_registration_witness:
  "addGeminiCitation (str ''#top'') (str ''Top'') (newContext exampleOptions newLinkAccumulator)
     = Inr ([], newContext exampleOptions newLinkAccumulator)
   \<and> addGeminiCitation (str ''x'') (str ''L'') (newContext exampleOptions newLinkAccumulator)
     = Inr (str ''[1]'',
            newContext exampleOptions
              (newLinkAccumulator\<lparr>linkArray := [\<lparr>index = 1, url = str ''x'', display = str ''L''\<rparr>]\<rparr>))
   \<and> FromHTMLNode plainTable
        (element Div []
          [element A [(str ''href'', str ''x'')] [textNode ''L''],
           element A [(str ''href'', str ''#top'')] [textNode ''Top''],
           element A [(str ''href'', str ''y'')] [textNode ''M'']])
        [exampleOptions] newLinkAccumulator
     = Inr (str ''L [1] Top M [2]\<newline>\<newline>=> x [1] L\<newline>=> y [2] M'',
            \<lparr>emitParaCount = 0,
             linkArray = [\<lparr>index = 1, url = str ''x'', display = str ''L''\<rparr>,
                          \<lparr>index = 2, url = str ''y'', display = str ''M''\<rparr>],
             flushedToIndex = 1, tableNestLevel = 0,
             written = [\<lparr>index = 1, url = str ''x'', display = str ''L''\<rparr>,
                        \<lparr>index = 2, url = str ''y'', display = str ''M''\<rparr>]\<rparr>)
   \<and> - (2 ^ 63) \<le> CitationStart (givenOptions [exampleOptions])
   \<and> 2 + CitationStart (givenOptions [exampleOptions]) \<le> 2 ^ 63
   \<and> index \<lparr>index = 1, url = str ''x'', display = str ''L''\<rparr> = CitationStart (givenOptions [exampleOptions])
   \<and> index \<lparr>index = 2, url = str ''y'', display = str ''M''\<rparr> = 1 + CitationStart (givenOptions [exampleOptions])"
proof -
  let ?doc = "element Div []
          [element A [(str ''href'', str ''x'')] [textNode ''L''],
           element A [(str ''href'', str ''#top'')] [textNode ''Top''],
           element A [(str ''href'', str ''y'')] [textNode ''M'']]"
  let ?l1 = "\<lparr>index = 1, url = str ''x'', display = str ''L''\<rparr>"
  let ?l2 = "\<lparr>index = 2, url = str ''y'', display = str ''M''\<rparr>"
  let ?g = "\<lparr>emitParaCount = 0, linkArray = [?l1, ?l2],
             flushedToIndex = 1, tableNestLevel = 0, written = [?l1, ?l2]\<rparr>"
  let ?s = "CitationStart (givenOptions [exampleOptions])"
  have r: "FromHTMLNode plainTable ?doc [exampleOptions] newLinkAccumulator
     = Inr (str ''L [1] Top M [2]\<newline>\<newline>=> x [1] L\<newline>=> y [2] M'', ?g)"
    by code_simp
  have a: "str ''#top'' \<noteq> []" "take 1 (str ''#top'') = str ''#''"
    "str ''x'' \<noteq> []" "take 1 (str ''x'') \<noteq> str ''#''"
    by (simp_all add: str_def)
  have s: "?s = 1" by (simp add: givenOptions_def exampleOptions_def)
  note t1 = citation_registration [of "str ''#top''" "str ''Top''" "newContext exampleOptions newLinkAccumulator"
      plainTable ?doc "[exampleOptions]" newLinkAccumulator _ ?g]
  note t2 = citation_registration [of "str ''x''" "str ''L''" "newContext exampleOptions newLinkAccumulator"
      plainTable ?doc "[exampleOptions]" newLinkAccumulator _ ?g]
  from t1 a have 1: "addGeminiCitation (str ''#top'') (str ''Top'') (newContext exampleOptions newLinkAccumulator)
     = Inr ([], newContext exampleOptions newLinkAccumulator)" by blast
  from t2 a have 2: "addGeminiCitation (str ''x'') (str ''L'') (newContext exampleOptions newLinkAccumulator)
     = Inr (str ''[1]'',
            newContext exampleOptions
              (newLinkAccumulator\<lparr>linkArray := [\<lparr>index = 1, url = str ''x'', display = str ''L''\<rparr>]\<rparr>))"
    by (simp add: newContext_def newLinkAccumulator_def exampleOptions_def Itoa_def str_def wrap64_def)
  have b: "- (2 ^ 63) \<le> ?s" "2 + ?s \<le> 2 ^ 63" by (simp_all add: s)
  have b': "- (2 ^ 63) \<le> ?s \<and> int (length (linkArray ?g)) + ?s \<le> 2 ^ 63" by (simp add: s)
  from t1 r have "\<exists>new. linkArray ?g = linkArray newLinkAccumulator @ new
           \<and> (\<forall>j < length new.
                 index (new ! j)
                   = wrap64 (int (length (linkArray newLinkAccumulator)) + int j + ?s)
                 \<and> url (new ! j) \<noteq> [] \<and> take 1 (url (new ! j)) \<noteq> str ''#'')
           \<and> (- (2 ^ 63) \<le> ?s \<and> int (length (linkArray ?g)) + ?s \<le> 2 ^ 63 \<longrightarrow>
               (\<forall>j < length new.
                  index (new ! j) = int (length (linkArray newLinkAccumulator)) + int j + ?s)
               \<and> (linkArray newLinkAccumulator = [] \<and> new \<noteq> [] \<longrightarrow> index (hd new) = ?s))"
    by blast
  with b' obtain new where
    n: "linkArray ?g = linkArray newLinkAccumulator @ new"
    and e: "\<forall>j < length new. index (new ! j) = int (length (linkArray newLinkAccumulator)) + int j + ?s"
    by blast
  from n have new: "new = [?l1, ?l2]" by (simp add: newLinkAccumulator_def)
  from e [rule_format, of 0] e [rule_format, of 1] new
  have 3: "index ?l1 = ?s" "index ?l2 = 1 + ?s" by (simp_all add: newLinkAccumulator_def)
  from 1 2 r b 3 show ?thesis by blast
qed

text \<open>
  The claim as it is worded fails in three places. A render that finds citations in the
  array (here the second render of a process, with \<open>CitationStart = 1\<close>) gives its first
  citation the index 2; with \<open>CitationStart\<close> at the largest \<open>int\<close> the index of the second
  citation of a render is the smallest \<open>int\<close>; and on the empty url the call panics.
\<close>

theorem citation_registration_counterexample:
  "CitationStart exampleOptions = 1
   \<and> FromHTMLNode plainTable (element A [(str ''href'', str ''y'')] [textNode ''M''])
       [exampleOptions] newLinkAccumulator
     = Inr (str ''M [1]\<newline>\<newline>=> y [1] M'',
            \<lparr>emitParaCount = 0,
             linkArray = [\<lparr>index = 1, url = str ''y'', display = str ''M''\<rparr>],
             flushedToIndex = 0, tableNestLevel = 0,
             written = [\<lparr>index = 1, url = str ''y'', display = str ''M''\<rparr>]\<rparr>)
   \<and> FromHTMLNode plainTable (element A [(str ''href'', str ''y'')] [textNode ''M''])
       [exampleOptions]
       \<lparr>emitParaCount = 0,
        linkArray = [\<lparr>index = 1, url = str ''y'', display = str ''M''\<rparr>],
        flushedToIndex = 0, tableNestLevel = 0,
        written = [\<lparr>index = 1, url = str ''y'', display = str ''M''\<rparr>]\<rparr>
     = Inr (str ''M [2]\<newline>\<newline>=> y [2] M'',
            \<lparr>emitParaCount = 0,
             linkArray = [\<lparr>index = 1, url = str ''y'', display = str ''M''\<rparr>,
                          \<lparr>index = 2, url = str ''y'', display = str ''M''\<rparr>],
             flushedToIndex = 1, tableNestLevel = 0,
             written = [\<lparr>index = 1, url = str ''y'', display = str ''M''\<rparr>,
                        \<lparr>index = 2, url = str ''y'', display = str ''M''\<rparr>]\<rparr>)
   \<and> FromHTMLNode plainTable
       (element Div [] [element A [(str ''href'', str ''x'')] [textNode ''L''],
                        element A [(str ''href'', str ''y'')] [textNode ''M'']])
       [exampleOptions\<lparr>CitationStart := 9223372036854775807, CitationMarkers := False,
                        NumberedLinks := False\<rparr>]
       newLinkAccumulator
     = Inr (str ''L M\<newline>\<newline>=> x  L\<newline>=> y  M'',
            \<lparr>emitParaCount = 0,
             linkArray = [\<lparr>index = 9223372036854775807, url = str ''x'', display = str ''L''\<rparr>,
                          \<lparr>index = - 9223372036854775808, url = str ''y'', display = str ''M''\<rparr>],
             flushedToIndex = 1, tableNestLevel = 0,
             written = [\<lparr>index = 9223372036854775807, url = str ''x'', display = str ''L''\<rparr>,
                        \<lparr>index = - 9223372036854775808, url = str ''y'', display = str ''M''\<rparr>]\<rparr>)
   \<and> addGeminiCitation [] (str ''L'') (newContext exampleOptions newLinkAccumulator)
     = Inl SliceBoundsOutOfRange"
  by code_simp

section \<open>Where the flushed lines are in the buffer\<close>

text \<open>
  The strings of a list occur in a text in the order of the list, each in a place of its
  own after the one before it.
\<close>

fun inOrder :: "gostring list \<Rightarrow> gostring \<Rightarrow> bool" where
  "inOrder [] s = True"
| "inOrder (l # ls) s =
     list_ex (\<lambda>i. take (length l) (drop i s) = l \<and> inOrder ls (drop (i + length l) s))
       [0..<Suc (length s)]"

text \<open>
  A tree in which no table cell (\<open>th\<close>, \<open>td\<close>) lies outside a \<open>table\<close> element.
\<close>

fun cellsInTables :: "Node \<Rightarrow> bool" where
  "cellsInTables (Node ty a d attrs cs) =
     (if ty = ElementNode
      then a \<noteq> Th \<and> a \<noteq> Td \<and> (a = Table \<or> list_all cellsInTables cs)
      else list_all cellsInTables cs)"

lemma inOrder_Cons_iff:
  "inOrder (l # ls) s \<longleftrightarrow> (\<exists>p q. s = p @ l @ q \<and> inOrder ls q)"
proof
  assume "inOrder (l # ls) s"
  then have "\<exists>i \<in> set [0..<Suc (length s)].
      take (length l) (drop i s) = l \<and> inOrder ls (drop (i + length l) s)"
    by (simp only: inOrder.simps list_ex_iff)
  then obtain i where t: "take (length l) (drop i s) = l"
    and r: "inOrder ls (drop (i + length l) s)"
    by blast
  have "drop i s = take (length l) (drop i s) @ drop (length l) (drop i s)"
    by (simp only: append_take_drop_id)
  then have "drop i s = l @ drop (i + length l) s" by (simp add: t add.commute)
  then have "take i s @ drop i s = take i s @ l @ drop (i + length l) s" by (simp only:)
  then have "s = take i s @ l @ drop (i + length l) s" by (simp only: append_take_drop_id)
  with r show "\<exists>p q. s = p @ l @ q \<and> inOrder ls q" by blast
next
  assume "\<exists>p q. s = p @ l @ q \<and> inOrder ls q"
  then obtain p q where s: "s = p @ l @ q" and r: "inOrder ls q" by blast
  have "length p \<in> set [0..<Suc (length s)]" by (simp add: s)
  moreover have "take (length l) (drop (length p) s) = l" by (simp add: s)
  moreover have "drop (length p + length l) s = q" by (simp add: s)
  ultimately have "\<exists>i \<in> set [0..<Suc (length s)].
      take (length l) (drop i s) = l \<and> inOrder ls (drop (i + length l) s)"
    using r by blast
  then show "inOrder (l # ls) s" by (simp only: inOrder.simps list_ex_iff)
qed

declare inOrder.simps(2) [simp del]

lemma inOrder_prepend: "inOrder ls s \<Longrightarrow> inOrder ls (p @ s)"
proof (cases ls)
  case Nil
  then show ?thesis by simp
next
  case (Cons l ls')
  assume "inOrder ls s"
  with Cons obtain p1 q where "s = p1 @ l @ q" "inOrder ls' q" by (auto simp: inOrder_Cons_iff)
  then have "p @ s = (p @ p1) @ l @ q \<and> inOrder ls' q" by simp
  then show ?thesis unfolding Cons inOrder_Cons_iff by blast
qed

lemma inOrder_extend: "inOrder ls s \<Longrightarrow> inOrder ls (s @ e)"
proof (induction ls arbitrary: s)
  case Nil
  show ?case by simp
next
  case (Cons l ls)
  then obtain p q where s: "s = p @ l @ q" and q: "inOrder ls q" by (auto simp: inOrder_Cons_iff)
  from Cons.IH [OF q] have "inOrder ls (q @ e)" .
  moreover have "s @ e = p @ l @ (q @ e)" by (simp add: s)
  ultimately show ?case unfolding inOrder_Cons_iff by blast
qed

lemma inOrder_append:
  "inOrder xs a \<Longrightarrow> inOrder ys b \<Longrightarrow> inOrder (xs @ ys) (a @ b)"
proof (induction xs arbitrary: a)
  case Nil
  then show ?case by (simp add: inOrder_prepend)
next
  case (Cons l xs)
  from Cons.prems(1) obtain p q where a: "a = p @ l @ q" and q: "inOrder xs q"
    by (auto simp: inOrder_Cons_iff)
  from Cons.IH [OF q Cons.prems(2)] have "inOrder (xs @ ys) (q @ b)" .
  moreover have "a @ b = p @ l @ (q @ b)" by (simp add: a)
  ultimately show ?case unfolding append_Cons inOrder_Cons_iff by blast
qed

lemma inOrder_concat: "inOrder ls (concat ls)"
proof (induction ls)
  case Nil
  show ?case by simp
next
  case (Cons l ls)
  have "concat (l # ls) = [] @ l @ concat ls" by simp
  with Cons show ?case unfolding inOrder_Cons_iff by blast
qed

lemma inOrder_block: "inOrder ls (p @ concat ls @ e)"
  by (intro inOrder_prepend inOrder_extend inOrder_concat)

lemma emitLine_appends: "emitLine line x = Inr y \<Longrightarrow> \<exists>e. buf y = buf x @ e"
proof -
  assume h: "emitLine line x = Inr y"
  then obtain r rs where l: "line = r # rs" by (cases line) (auto simp: emitLine_def)
  let ?sep = "\<not> (IsSpace r \<or> punctNoSpaceBefore r) \<and> \<not> endsWithSpace x"
  let ?c1 = "(if ?sep then x\<lparr>buf := buf x @ str '' '', lineLength := lineLength x + 1\<rparr> else x)"
  let ?c2 = "?c1\<lparr>endsWithSpace := (IsSpace (last line) \<or> punctNoSpaceAfter (last line))\<rparr>"
  from h l have y: "y = writeRunes line ?c2"
    by (simp add: emitLine_def Let_def del: writeRunes.simps)
  from writeRunes_prefix [of line ?c2] obtain n where
    "writeRunes line ?c2 = ?c2\<lparr>buf := buf ?c2 @ withPrefix (prefix ?c2) line, lineLength := n\<rparr>"
    by blast
  with y have "buf y = buf x @ ((if ?sep then str '' '' else []) @ withPrefix (prefix ?c2) line)"
    by simp
  then show ?thesis by blast
qed

lemma emitLines_appends: "emitLines lines x = Inr y \<Longrightarrow> \<exists>e. buf y = buf x @ e"
proof (induction lines arbitrary: x)
  case Nil
  then show ?case by simp
next
  case (Cons line lines)
  then obtain x1 where 1: "emitLine line x = Inr x1" and 2: "emitLines lines x1 = Inr y"
    by (auto split: sum.splits)
  from emitLine_appends [OF 1] Cons.IH [OF 2] obtain e1 e2 where
    "buf x1 = buf x @ e1" "buf y = buf x1 @ e2" by blast
  then have "buf y = buf x @ (e1 @ e2)" by simp
  then show ?case by blast
qed

lemma emit_appends: "emit d x = Inr y \<Longrightarrow> \<exists>e. buf y = buf x @ e"
  by (auto simp: emit_def split: if_splits sum.splits dest: emitLines_appends)

text \<open>
  What a step of the render writes: the buffer only grows, and the lines of the citations
  that the step has flushed are in what it has appended, in the order of the flushes.
\<close>

definition Out ::
  "'a Options_scheme textifyTraverseContext \<Rightarrow> 'a Options_scheme textifyTraverseContext \<Rightarrow> bool" where
  "Out c c' =
     (\<exists>d w. buf c' = buf c @ d
        \<and> written (linkAccumulator c') = written (linkAccumulator c) @ w
        \<and> inOrder (map (citationLine (options c)) w) d)"

text \<open>
  A step of the render: a step as above that also writes as said, and flushes nothing when
  it starts inside a table.
\<close>

definition Wr ::
  "int \<Rightarrow> 'a Options_scheme textifyTraverseContext \<Rightarrow> 'a Options_scheme textifyTraverseContext \<Rightarrow> bool" where
  "Wr k c c' =
     (0 \<le> k \<and> Eff k c c' \<and> Out c c'
      \<and> (0 < tableNestLevel (linkAccumulator c) \<longrightarrow>
            written (linkAccumulator c') = written (linkAccumulator c)))"

text \<open>
  Where a traversal may start, for a tree that is as \<open>ok\<close> says: with pretty tables on,
  inside a table, or at level 0 with every cell of the tree inside a table.
\<close>

definition mayStart :: "bool \<Rightarrow> 'a Options_scheme textifyTraverseContext \<Rightarrow> bool" where
  "mayStart ok c =
     (PrettyTables (options c) \<longrightarrow>
        0 < tableNestLevel (linkAccumulator c) \<or> (tableNestLevel (linkAccumulator c) = 0 \<and> ok))"

definition keepsW ::
  "bool \<Rightarrow> ('a Options_scheme textifyTraverseContext \<Rightarrow> panic + 'a Options_scheme textifyTraverseContext)
   \<Rightarrow> bool" where
  "keepsW ok f = (\<forall>x y. f x = Inr y \<longrightarrow> mayStart ok x \<longrightarrow> Wr 0 x y)"

definition keepsWR ::
  "('a Options_scheme textifyTraverseContext
     \<Rightarrow> panic + (gostring \<times> 'a Options_scheme textifyTraverseContext)) \<Rightarrow> bool" where
  "keepsWR f = (\<forall>x s y. f x = Inr (s, y) \<longrightarrow> 0 < tableNestLevel (linkAccumulator x) \<longrightarrow> Wr 0 x y)"

lemma Out_refl: "Out c c"
  by (simp add: Out_def)

lemma Out_trans:
  assumes "Out a b" and "Out b c" and "options b = options a"
  shows "Out a c"
proof -
  from assms(1) obtain d1 w1 where 1: "buf b = buf a @ d1"
    "written (linkAccumulator b) = written (linkAccumulator a) @ w1"
    "inOrder (map (citationLine (options a)) w1) d1"
    unfolding Out_def by blast
  from assms(2,3) obtain d2 w2 where 2: "buf c = buf b @ d2"
    "written (linkAccumulator c) = written (linkAccumulator b) @ w2"
    "inOrder (map (citationLine (options a)) w2) d2"
    unfolding Out_def by auto
  from 1(3) 2(3) have "inOrder (map (citationLine (options a)) (w1 @ w2)) (d1 @ d2)"
    by (simp add: inOrder_append)
  moreover have "buf c = buf a @ (d1 @ d2)" using 1(1) 2(1) by simp
  moreover have "written (linkAccumulator c) = written (linkAccumulator a) @ (w1 @ w2)"
    using 1(2) 2(2) by simp
  ultimately show ?thesis unfolding Out_def by blast
qed

lemma Wr_refl: "Wr 0 c c"
  by (simp add: Wr_def Eff_refl Out_refl)

lemma Wr_then:
  assumes "Wr k a b" and "Wr 0 b c"
  shows "Wr k a c"
proof -
  from assms have k: "0 \<le> k" and e1: "Eff k a b" and e2: "Eff 0 b c"
    and o1: "Out a b" and o2: "Out b c"
    by (simp_all add: Wr_def)
  from e1 have ob: "options b = options a"
    and lb: "tableNestLevel (linkAccumulator b) = tableNestLevel (linkAccumulator a) + k"
    by (simp_all add: Eff_def)
  have "Eff k a c" using e1 e2 by (rule Eff_then)
  moreover have "Out a c" using o1 o2 ob by (rule Out_trans)
  moreover have "0 < tableNestLevel (linkAccumulator a) \<longrightarrow>
            written (linkAccumulator c) = written (linkAccumulator a)"
    using assms k lb by (simp add: Wr_def)
  ultimately show ?thesis using k by (simp add: Wr_def)
qed

lemma Wr_same:
  "options y = options x \<Longrightarrow> linkAccumulator y = linkAccumulator x \<Longrightarrow> buf y = buf x \<Longrightarrow> Wr 0 x y"
  by (simp add: Wr_def Eff_same Out_def)

lemma emit_Wr0: "emit d x = Inr y \<Longrightarrow> Wr 0 x y"
proof -
  assume h: "emit d x = Inr y"
  from emit_appends [OF h] obtain e where e: "buf y = buf x @ e" ..
  from emit_frame [OF h] have f: "options y = options x" "linkAccumulator y = linkAccumulator x"
    by simp_all
  from e f have "Out x y" by (simp add: Out_def)
  with f show ?thesis by (simp add: Wr_def Eff_same)
qed

lemma Wr_emit: "emit d x = Inr y \<Longrightarrow> Wr k c x \<Longrightarrow> Wr k c y"
  using Wr_then [OF _ emit_Wr0] by blast

lemma forceFlush_Wr0: "Wr 0 x (forceFlushGeminiCitations x)"
proof -
  have "Eff 0 x (forceFlushGeminiCitations x)" by (rule Eff_forceFlush [OF Eff_refl])
  moreover have "Out x (forceFlushGeminiCitations x)"
    unfolding Out_def forceFlushGeminiCitations_eq
    by (auto simp: inOrder_block)
  moreover have "0 < tableNestLevel (linkAccumulator x) \<longrightarrow>
      written (linkAccumulator (forceFlushGeminiCitations x)) = written (linkAccumulator x)"
    by (simp add: forceFlushGeminiCitations_eq)
  ultimately show ?thesis by (simp add: Wr_def)
qed

lemma Wr_forceFlush: "Wr k c x \<Longrightarrow> Wr k c (forceFlushGeminiCitations x)"
  using Wr_then [OF _ forceFlush_Wr0] by blast

lemma Wr_FlushCitations: "Wr k c x \<Longrightarrow> Wr k c (FlushCitations x)"
  by (simp add: FlushCitations_def emitGeminiCitations_def Wr_forceFlush)

lemma Wr_CheckFlushCitations: "Wr k c x \<Longrightarrow> Wr k c (CheckFlushCitations x)"
proof -
  have "Wr 0 x (x\<lparr>linkAccumulator := (linkAccumulator x)
                 \<lparr>emitParaCount := emitParaCount (linkAccumulator x) + 1\<rparr>\<rparr>)"
    by (simp add: Wr_def Eff_def accInv_def Out_def)
  then show "Wr k c x \<Longrightarrow> Wr k c (CheckFlushCitations x)"
    by (auto simp: CheckFlushCitations_def Wr_FlushCitations intro: Wr_then)
qed

lemma citeAttr_Wr0:
  assumes "citeAttr v t x = Inr (m, y)"
  shows "Wr 0 x y"
proof -
  have "Eff 0 x y" using assms by (rule citeAttr_Eff0)
  moreover from assms have "buf y = buf x \<and> written (linkAccumulator y) = written (linkAccumulator x)"
    by (auto simp: citeAttr_def addGeminiCitation_def Let_def split: if_splits)
  ultimately show ?thesis by (simp add: Wr_def Out_def)
qed

lemma Wr_citeAttr: "citeAttr v t x = Inr (m, y) \<Longrightarrow> Wr k c x \<Longrightarrow> Wr k c y"
  using Wr_then [OF _ citeAttr_Wr0] by blast

lemma Wr_level:
  "Wr k c x \<Longrightarrow>
   linkAccumulator y = (linkAccumulator x)\<lparr>tableNestLevel := tableNestLevel (linkAccumulator x) + j\<rparr> \<Longrightarrow>
   options y = options x \<Longrightarrow> buf y = buf x \<Longrightarrow> 0 \<le> k + j \<Longrightarrow> Wr (k + j) c y"
  using Eff_level [of k c x y j] by (simp add: Wr_def Out_def)

lemma Wr_updates [simp]:
  "Wr k c (x\<lparr>prefix := p\<rparr>) = Wr k c x"
  "Wr k c (x\<lparr>tableCtx := t\<rparr>) = Wr k c x"
  "Wr k c (x\<lparr>endsWithSpace := e\<rparr>) = Wr k c x"
  "Wr k c (x\<lparr>justClosedDiv := j\<rparr>) = Wr k c x"
  "Wr k c (x\<lparr>blockquoteLevel := q\<rparr>) = Wr k c x"
  "Wr k c (x\<lparr>lineLength := n\<rparr>) = Wr k c x"
  "Wr k c (x\<lparr>isPre := i\<rparr>) = Wr k c x"
  by (simp_all add: Wr_def Out_def)

lemma Wr_updates_left [simp]:
  "Wr k (x\<lparr>prefix := p\<rparr>) c = Wr k x c"
  "Wr k (x\<lparr>tableCtx := t\<rparr>) c = Wr k x c"
  "Wr k (x\<lparr>endsWithSpace := e\<rparr>) c = Wr k x c"
  "Wr k (x\<lparr>justClosedDiv := j\<rparr>) c = Wr k x c"
  "Wr k (x\<lparr>blockquoteLevel := q\<rparr>) c = Wr k x c"
  "Wr k (x\<lparr>lineLength := n\<rparr>) c = Wr k x c"
  "Wr k (x\<lparr>isPre := i\<rparr>) c = Wr k x c"
  by (simp_all add: Wr_def Out_def)

lemma mayStart_step: "Wr k c x \<Longrightarrow> mayStart ok c \<Longrightarrow> mayStart ok x"
  by (auto simp: Wr_def Eff_def mayStart_def)

lemma mayStart_updates [simp]:
  "mayStart ok (x\<lparr>buf := b\<rparr>) = mayStart ok x"
  "mayStart ok (x\<lparr>prefix := p\<rparr>) = mayStart ok x"
  "mayStart ok (x\<lparr>tableCtx := t\<rparr>) = mayStart ok x"
  "mayStart ok (x\<lparr>endsWithSpace := e\<rparr>) = mayStart ok x"
  "mayStart ok (x\<lparr>justClosedDiv := j\<rparr>) = mayStart ok x"
  "mayStart ok (x\<lparr>blockquoteLevel := q\<rparr>) = mayStart ok x"
  "mayStart ok (x\<lparr>lineLength := n\<rparr>) = mayStart ok x"
  "mayStart ok (x\<lparr>isPre := i\<rparr>) = mayStart ok x"
  by (simp_all add: mayStart_def)

lemma keepsW_run:
  "keepsW ok tc \<Longrightarrow> mayStart ok c \<Longrightarrow> tc a = Inr b \<Longrightarrow> Wr j c a \<Longrightarrow> Wr j c b"
  using mayStart_step [of j c a ok] Wr_then [of j c a b] unfolding keepsW_def by blast

lemma paragraphHandler_Wr:
  assumes ktc: "keepsW ok tc" and ms: "mayStart ok c"
    and h: "paragraphHandler tc x = Inr y" and e: "Wr k c x"
  shows "Wr k c y"
proof -
  from h obtain x1 x2 where
    1: "emit (str ''\<newline>\<newline>'') (CheckFlushCitations x) = Inr x1" and
    2: "tc x1 = Inr x2" and 3: "emit (str ''\<newline>\<newline>'') x2 = Inr y"
    unfolding paragraphHandler_def by (elim andThenE)
  from e have "Wr k c (CheckFlushCitations x)" by (rule Wr_CheckFlushCitations)
  with 1 have "Wr k c x1" by (rule Wr_emit)
  with 2 have "Wr k c x2" by (rule keepsW_run [OF ktc ms])
  with 3 show ?thesis by (rule Wr_emit)
qed

lemma handleTableElement_Wr:
  assumes ktc: "keepsW ok tc"
    and krc: "keepsWR rc"
    and h: "handleTableElement tw tc rc node x = Inr y"
    and pre: "0 < tableNestLevel (linkAccumulator x)
       \<or> (tableNestLevel (linkAccumulator x) = 0
           \<and> DataAtom node \<noteq> Th \<and> DataAtom node \<noteq> Td \<and> (DataAtom node = Table \<or> ok))"
  shows "Wr 0 x y"
proof -
  from h have p: "PrettyTables (options x)"
    by (auto simp: handleTableElement_def split: if_splits)
  show ?thesis
  proof (cases "DataAtom node")
    case Table
    let ?up = "\<lambda>z. z\<lparr>linkAccumulator := (linkAccumulator z)
                            \<lparr>tableNestLevel := tableNestLevel (linkAccumulator z) + 1\<rparr>,
                          tableCtx := init (tableCtx z)\<rparr>"
    let ?down = "\<lambda>z. z\<lparr>linkAccumulator := (linkAccumulator z)
                           \<lparr>tableNestLevel := tableNestLevel (linkAccumulator z) - 1\<rparr>\<rparr>"
    from h p Table obtain x1 x2 x3 where
      1: "(if tableNestLevel (linkAccumulator x) = 0
                   then emit (str ''\<newline>\<newline>```\<newline>'') x
                   else emit (str ''\<newline>\<newline>'') x) = Inr x1" and
      2: "tc (?up x1) = Inr x2" and
      3: "emit (tw (PrettyTablesOptions (options x2)) (header (tableCtx x2))
                          (footer (tableCtx x2)) (body (tableCtx x2))) x2 = Inr x3" and
      4: "(if tableNestLevel (linkAccumulator (?down x3)) = 0
              then emit (str ''```\<newline>\<newline>'') (?down x3)
              else emit (str ''\<newline>\<newline>'') (?down x3)) = Inr y"
      unfolding handleTableElement_def by (simp add: Let_def) (elim andThenE, blast)
    from 1 have w1: "Wr 0 x x1" by (auto split: if_splits intro: emit_Wr0)
    then have "Wr (0 + 1) x (?up x1)" by (rule Wr_level) simp_all
    then have wu: "Wr 1 x (?up x1)" by simp
    from w1 pre have "0 < tableNestLevel (linkAccumulator (?up x1))"
      by (auto simp: Wr_def Eff_def)
    then have "mayStart ok (?up x1)" by (simp add: mayStart_def)
    with ktc 2 have "Wr 0 (?up x1) x2" unfolding keepsW_def by blast
    with wu have "Wr 1 x x2" by (rule Wr_then)
    with 3 have "Wr 1 x x3" by (rule Wr_emit)
    then have "Wr (1 + (- 1)) x (?down x3)" by (rule Wr_level) simp_all
    then have "Wr 0 x (?down x3)" by simp
    with 4 show ?thesis by (auto split: if_splits intro: Wr_emit)
  next
    case Tfoot
    with pre p have ms: "mayStart ok (x\<lparr>tableCtx := (tableCtx x)\<lparr>isInFooter := True\<rparr>\<rparr>)"
      by (auto simp: mayStart_def)
    from h p Tfoot obtain x1 where
      1: "tc (x\<lparr>tableCtx := (tableCtx x)\<lparr>isInFooter := True\<rparr>\<rparr>) = Inr x1"
      and 2: "y = x1\<lparr>tableCtx := (tableCtx x1)\<lparr>isInFooter := False\<rparr>\<rparr>"
      unfolding handleTableElement_def by (auto elim!: andThenE)
    from ktc 1 ms have "Wr 0 (x\<lparr>tableCtx := (tableCtx x)\<lparr>isInFooter := True\<rparr>\<rparr>) x1"
      unfolding keepsW_def by blast
    with 2 show ?thesis by simp
  next
    case Tr
    with pre p have ms: "mayStart ok (x\<lparr>tableCtx := (tableCtx x)\<lparr>body := body (tableCtx x) @ [[]]\<rparr>\<rparr>)"
      by (auto simp: mayStart_def)
    from h p Tr obtain x1 where
      1: "tc (x\<lparr>tableCtx := (tableCtx x)\<lparr>body := body (tableCtx x) @ [[]]\<rparr>\<rparr>) = Inr x1"
      and 2: "y = x1\<lparr>tableCtx := (tableCtx x1)\<lparr>tmpRow := tmpRow (tableCtx x1) + 1\<rparr>\<rparr>"
      unfolding handleTableElement_def by (auto elim!: andThenE)
    from ktc 1 ms have "Wr 0 (x\<lparr>tableCtx := (tableCtx x)\<lparr>body := body (tableCtx x) @ [[]]\<rparr>\<rparr>) x1"
      unfolding keepsW_def by blast
    with 2 show ?thesis by simp
  next
    case Th
    with pre have l: "0 < tableNestLevel (linkAccumulator x)" by simp
    from h p Th obtain res x1 where 1: "rc x = Inr (res, x1)"
      and 2: "y = x1\<lparr>tableCtx := (tableCtx x1)\<lparr>header := header (tableCtx x1) @ [res]\<rparr>\<rparr>"
      unfolding handleTableElement_def by (auto elim!: andThenE)
    from krc 1 l have "Wr 0 x x1" unfolding keepsWR_def by blast
    with 2 show ?thesis by simp
  next
    case Td
    with pre have l: "0 < tableNestLevel (linkAccumulator x)" by simp
    from h p Td obtain res x1 t where 1: "rc x = Inr (res, x1)"
      and 2: "y = x1\<lparr>tableCtx := t\<rparr>"
      unfolding handleTableElement_def by (auto elim!: andThenE split: if_splits)
    from krc 1 l have "Wr 0 x x1" unfolding keepsWR_def by blast
    with 2 show ?thesis by simp
  qed (use h p in \<open>auto simp: handleTableElement_def Wr_refl\<close>)
qed

lemma heading_Wr:
  assumes ktc: "keepsW ok tc" and ms: "mayStart ok x"
    and h: "andThen (emit d (FlushCitations x)) (\<lambda>ctx. andThen (tc ctx) (\<lambda>ctx. emit d' ctx)) = Inr y"
  shows "Wr 0 x y"
proof -
  from h obtain x1 x2 where 1: "emit d (FlushCitations x) = Inr x1" and 2: "tc x1 = Inr x2"
    and 3: "emit d' x2 = Inr y"
    by (elim andThenE)
  have "Wr 0 x (FlushCitations x)" by (rule Wr_FlushCitations [OF Wr_refl])
  with 1 have "Wr 0 x x1" by (rule Wr_emit)
  with 2 have "Wr 0 x x2" by (rule keepsW_run [OF ktc ms])
  with 3 show ?thesis by (rule Wr_emit)
qed

lemma blockquote_Wr:
  assumes ktc: "keepsW ok tc" and ms: "mayStart ok x"
    and h: "andThen (Repeat s (blockquoteLevel x + 1)) (\<lambda>marks.
              andThen (emit d1 (x\<lparr>blockquoteLevel := blockquoteLevel x + 1, prefix := marks @ p\<rparr>)) (\<lambda>ctx.
              andThen (if blockquoteLevel ctx = 1 then emit d2 ctx else Inr ctx) (\<lambda>ctx.
              andThen (tc ctx) (\<lambda>ctx.
              andThen (Repeat s (blockquoteLevel ctx - 1)) (\<lambda>marks.
                  emit d3
                    (ctx\<lparr>blockquoteLevel := blockquoteLevel ctx - 1,
                         prefix := (if 0 < blockquoteLevel ctx - 1 then marks @ p else marks)\<rparr>)))))) = Inr y"
  shows "Wr 0 x y"
proof -
  from h obtain m1 x1 x2 x3 m2 where
    1: "emit d1 (x\<lparr>blockquoteLevel := blockquoteLevel x + 1, prefix := m1 @ p\<rparr>) = Inr x1"
    and 2: "(if blockquoteLevel x1 = 1 then emit d2 x1 else Inr x1) = Inr x2"
    and 3: "tc x2 = Inr x3"
    and 4: "emit d3 (x3\<lparr>blockquoteLevel := blockquoteLevel x3 - 1,
                         prefix := (if 0 < blockquoteLevel x3 - 1 then m2 @ p else m2)\<rparr>) = Inr y"
    by (elim andThenE)
  have "Wr 0 x (x\<lparr>blockquoteLevel := blockquoteLevel x + 1, prefix := m1 @ p\<rparr>)"
    by (simp add: Wr_refl)
  with 1 have "Wr 0 x x1" by (rule Wr_emit)
  with 2 have "Wr 0 x x2" by (auto split: if_splits intro: Wr_emit)
  with 3 have "Wr 0 x x3" by (rule keepsW_run [OF ktc ms])
  then have "Wr 0 x (x3\<lparr>blockquoteLevel := blockquoteLevel x3 - 1,
                         prefix := (if 0 < blockquoteLevel x3 - 1 then m2 @ p else m2)\<rparr>)"
    by simp
  with 4 show ?thesis by (rule Wr_emit)
qed

lemma tableElement_Wr:
  assumes ktc: "keepsW ok tc"
    and krc: "keepsWR rc"
    and ms: "mayStart (DataAtom node \<noteq> Th \<and> DataAtom node \<noteq> Td \<and> (DataAtom node = Table \<or> ok)) x"
    and h: "(if PrettyTables (options x)
            then handleTableElement tw tc rc node x
            else if DataAtom node = Table
            then andThen (emit d x) (\<lambda>ctx. paragraphHandler tc ctx)
            else andThen (if DataAtom node = Tr then emit d' x else Inr x) (\<lambda>ctx. tc ctx)) = Inr y"
  shows "Wr 0 x y"
proof (cases "PrettyTables (options x)")
  case True
  with h have "handleTableElement tw tc rc node x = Inr y" by simp
  moreover from ms True have "0 < tableNestLevel (linkAccumulator x)
       \<or> (tableNestLevel (linkAccumulator x) = 0
           \<and> DataAtom node \<noteq> Th \<and> DataAtom node \<noteq> Td \<and> (DataAtom node = Table \<or> ok))"
    by (simp add: mayStart_def)
  ultimately show ?thesis by (rule handleTableElement_Wr [OF ktc krc])
next
  case False
  then have m: "mayStart ok x" by (simp add: mayStart_def)
  show ?thesis
  proof (cases "DataAtom node = Table")
    case True
    with h False obtain x1 where 1: "emit d x = Inr x1" and 2: "paragraphHandler tc x1 = Inr y"
      by (auto elim: andThenE)
    from 1 have "Wr 0 x x1" by (rule emit_Wr0)
    with 2 show ?thesis by (rule paragraphHandler_Wr [OF ktc m])
  next
    case nt: False
    with h False obtain x1 where 1: "(if DataAtom node = Tr then emit d' x else Inr x) = Inr x1"
      and 2: "tc x1 = Inr y"
      by (auto elim: andThenE)
    from 1 have "Wr 0 x x1" by (auto split: if_splits intro: emit_Wr0 Wr_refl)
    with 2 show ?thesis by (rule keepsW_run [OF ktc m])
  qed
qed

lemma handleElement_Wr:
  assumes ktc: "keepsW ok tc"
    and krc: "keepsWR rc"
    and ms: "mayStart (DataAtom node \<noteq> Th \<and> DataAtom node \<noteq> Td \<and> (DataAtom node = Table \<or> ok)) x"
    and h: "handleElement tw tc rc node x = Inr y"
  shows "Wr 0 x y"
proof -
  let ?x = "x\<lparr>justClosedDiv := False\<rparr>"
  have x: "\<And>z. Wr 0 ?x z \<Longrightarrow> Wr 0 x z" by simp
  from ms have ms': "mayStart (DataAtom node \<noteq> Th \<and> DataAtom node \<noteq> Td \<and> (DataAtom node = Table \<or> ok)) ?x"
    by simp
  have m: "DataAtom node \<noteq> Th \<Longrightarrow> DataAtom node \<noteq> Td \<Longrightarrow> DataAtom node \<noteq> Table \<Longrightarrow> mayStart ok ?x"
    using ms by (auto simp: mayStart_def)
  note run = keepsW_run [OF ktc]
  note tb = tableElement_Wr [OF ktc krc ms', THEN x]
  show ?thesis
  proof (cases "DataAtom node")
    case Br
    with h show ?thesis by (auto simp: handleElement_def dest!: emit_Wr0)
  next
    case H1
    then have m1: "mayStart ok ?x" by (intro m) simp_all
    from H1 h have "andThen (emit (str ''\<newline>'' @ headingPrefix (DataAtom node)) (FlushCitations ?x))
        (\<lambda>ctx. andThen (tc ctx) (\<lambda>ctx. emit (str ''\<newline>'') ctx)) = Inr y"
      by (simp add: handleElement_def Let_def)
    then show ?thesis by (rule heading_Wr [OF ktc m1, THEN x])
  next
    case H2
    then have m1: "mayStart ok ?x" by (intro m) simp_all
    from H2 h have "andThen (emit (str ''\<newline>'' @ headingPrefix (DataAtom node)) (FlushCitations ?x))
        (\<lambda>ctx. andThen (tc ctx) (\<lambda>ctx. emit (str ''\<newline>'') ctx)) = Inr y"
      by (simp add: handleElement_def Let_def)
    then show ?thesis by (rule heading_Wr [OF ktc m1, THEN x])
  next
    case H3
    then have m1: "mayStart ok ?x" by (intro m) simp_all
    from H3 h have "andThen (emit (str ''\<newline>'' @ headingPrefix (DataAtom node)) (FlushCitations ?x))
        (\<lambda>ctx. andThen (tc ctx) (\<lambda>ctx. emit (str ''\<newline>'') ctx)) = Inr y"
      by (simp add: handleElement_def Let_def)
    then show ?thesis by (rule heading_Wr [OF ktc m1, THEN x])
  next
    case Blockquote
    then have m1: "mayStart ok ?x" by (intro m) simp_all
    let ?f = "FlushCitations ?x"
    have wf: "Wr 0 x ?f" by (rule Wr_FlushCitations) (simp add: Wr_refl)
    have mf: "mayStart ok ?f" using wf ms Blockquote mayStart_step [of 0 x ?f ok]
      by (auto simp: mayStart_def)
    from Blockquote h have "andThen (Repeat (str ''>'') (blockquoteLevel ?f + 1)) (\<lambda>marks.
              andThen (emit (str ''\<newline>'') (?f\<lparr>blockquoteLevel := blockquoteLevel ?f + 1,
                          prefix := marks @ str '' ''\<rparr>)) (\<lambda>ctx.
              andThen (if blockquoteLevel ctx = 1 then emit (str ''\<newline>'') ctx else Inr ctx) (\<lambda>ctx.
              andThen (tc ctx) (\<lambda>ctx.
              andThen (Repeat (str ''>'') (blockquoteLevel ctx - 1)) (\<lambda>marks.
                  emit (str ''\<newline>\<newline>'')
                    (ctx\<lparr>blockquoteLevel := blockquoteLevel ctx - 1,
                         prefix := (if 0 < blockquoteLevel ctx - 1 then marks @ str '' '' else marks)\<rparr>)))))) = Inr y"
      by (simp add: handleElement_def Let_def)
    then have "Wr 0 ?f y" by (rule blockquote_Wr [OF ktc mf])
    with wf show ?thesis by (rule Wr_then)
  next
    case Div
    then have m1: "mayStart ok ?x" by (intro m) simp_all
    from Div h obtain x1 x2 x3 where
      1: "(if 0 < lineLength ?x then emit (str ''\<newline>'') ?x else Inr ?x) = Inr x1"
      and 2: "tc x1 = Inr x2"
      and 3: "(if \<not> justClosedDiv x2 then emit (str ''\<newline>'') x2 else Inr x2) = Inr x3"
      and 4: "y = x3\<lparr>justClosedDiv := True\<rparr>"
      by (auto simp: handleElement_def Let_def elim!: andThenE)
    from 1 have "Wr 0 ?x x1" by (auto split: if_splits dest!: emit_Wr0 simp: Wr_refl)
    with 2 have "Wr 0 ?x x2" by (rule run [OF m1])
    with 3 have "Wr 0 ?x x3" by (auto split: if_splits intro: Wr_emit)
    with 4 show ?thesis by simp
  next
    case Li
    then have m1: "mayStart ok ?x" by (intro m) simp_all
    from Li h obtain x1 x2 where 1: "emit (str ''* '') ?x = Inr x1" and 2: "tc x1 = Inr x2"
      and 3: "emit (str ''\<newline>'') x2 = Inr y"
      by (auto simp: handleElement_def Let_def elim!: andThenE)
    from 1 have "Wr 0 ?x x1" by (rule emit_Wr0)
    with 2 have "Wr 0 ?x x2" by (rule run [OF m1])
    with 3 have "Wr 0 ?x y" by (rule Wr_emit)
    then show ?thesis by (rule x)
  next
    case Img
    show ?thesis
    proof (cases "EmitImagesAsLinks (options x)")
      case True
      with h Img obtain x1 m x2 where 1: "emit (imgAltText (options x) node) ?x = Inr x1"
        and 2: "citeAttr (getAttrVal node (str ''src'')) (imgAltText (options x) node) x1 = Inr (m, x2)"
        and 3: "emit m x2 = Inr y"
        by (auto simp: handleElement_def Let_def elim!: andThenE split: prod.splits)
      from 1 have "Wr 0 ?x x1" by (rule emit_Wr0)
      with 2 have "Wr 0 ?x x2" by (rule Wr_citeAttr)
      with 3 have "Wr 0 ?x y" by (rule Wr_emit)
      then show ?thesis by (rule x)
    next
      case False
      with h Img show ?thesis by (auto simp: handleElement_def Let_def dest!: emit_Wr0)
    qed
  next
    case A
    then have m1: "mayStart ok ?x" by (intro m) simp_all
    from A h obtain x1 t x2 m x3 where 1: "tc ?x = Inr x1"
      and 2: "(case Children node of
                 [] \<Rightarrow> Inr (case Children node of [] \<Rightarrow> [] | [c] \<Rightarrow> if Type c = TextNode then Data c else [] | c # a # list \<Rightarrow> [], x1)
               | [img] \<Rightarrow> if DataAtom img = Img
                          then (let linkText = EmptyLinkPrefix (options x1)
                                in andThen (emit (str '' '' @ linkText) x1) (\<lambda>ctx. Inr (linkText, ctx)))
                          else Inr (case Children node of [] \<Rightarrow> [] | [c] \<Rightarrow> if Type c = TextNode then Data c else [] | c # a # list \<Rightarrow> [], x1)
               | img # a # list \<Rightarrow> Inr (case Children node of [] \<Rightarrow> [] | [c] \<Rightarrow> if Type c = TextNode then Data c else [] | c # a # list \<Rightarrow> [], x1)) = Inr (t, x2)"
      and 3: "citeAttr (getAttrVal node (str ''href'')) t x2 = Inr (m, x3)"
      and 4: "emit m x3 = Inr y"
      by (auto simp: handleElement_def Let_def elim!: andThenE split: prod.splits)
    from 1 have "Wr 0 ?x x1" by (rule run [OF m1 _ Wr_refl])
    moreover from 2 have "Wr 0 x1 x2"
      by (auto split: list.splits if_splits elim!: andThenE dest!: emit_Wr0 simp: Wr_refl Let_def)
    ultimately have "Wr 0 ?x x2" by (rule Wr_then)
    with 3 have "Wr 0 ?x x3" by (rule Wr_citeAttr)
    with 4 have "Wr 0 ?x y" by (rule Wr_emit)
    then show ?thesis by (rule x)
  next
    case P
    then have m1: "mayStart ok ?x" by (intro m) simp_all
    from P h have "paragraphHandler tc ?x = Inr y" by (simp add: handleElement_def Let_def)
    then have "Wr 0 ?x y" by (rule paragraphHandler_Wr [OF ktc m1 _ Wr_refl])
    then show ?thesis by (rule x)
  next
    case Ul
    then have m1: "mayStart ok ?x" by (intro m) simp_all
    from Ul h have "paragraphHandler tc ?x = Inr y" by (simp add: handleElement_def Let_def)
    then have "Wr 0 ?x y" by (rule paragraphHandler_Wr [OF ktc m1 _ Wr_refl])
    then show ?thesis by (rule x)
  next
    case Table
    with h have "(if PrettyTables (options ?x)
            then handleTableElement tw tc rc node ?x
            else if DataAtom node = Table
            then andThen (emit (str ''\<newline>\<newline>'' @ [0x229E] @ str '' table '' @ [0x229E] @ str ''\<newline>\<newline>'') ?x)
                   (\<lambda>ctx. paragraphHandler tc ctx)
            else andThen (if DataAtom node = Tr then emit (str ''\<newline>'') ?x else Inr ?x)
                   (\<lambda>ctx. tc ctx)) = Inr y"
      by (simp add: handleElement_def Let_def)
    then show ?thesis by (rule tb)
  next
    case Tfoot
    with h have "(if PrettyTables (options ?x)
            then handleTableElement tw tc rc node ?x
            else if DataAtom node = Table
            then andThen (emit (str ''\<newline>\<newline>'' @ [0x229E] @ str '' table '' @ [0x229E] @ str ''\<newline>\<newline>'') ?x)
                   (\<lambda>ctx. paragraphHandler tc ctx)
            else andThen (if DataAtom node = Tr then emit (str ''\<newline>'') ?x else Inr ?x)
                   (\<lambda>ctx. tc ctx)) = Inr y"
      by (simp add: handleElement_def Let_def)
    then show ?thesis by (rule tb)
  next
    case Th
    with h have "(if PrettyTables (options ?x)
            then handleTableElement tw tc rc node ?x
            else if DataAtom node = Table
            then andThen (emit (str ''\<newline>\<newline>'' @ [0x229E] @ str '' table '' @ [0x229E] @ str ''\<newline>\<newline>'') ?x)
                   (\<lambda>ctx. paragraphHandler tc ctx)
            else andThen (if DataAtom node = Tr then emit (str ''\<newline>'') ?x else Inr ?x)
                   (\<lambda>ctx. tc ctx)) = Inr y"
      by (simp add: handleElement_def Let_def)
    then show ?thesis by (rule tb)
  next
    case Tr
    with h have "(if PrettyTables (options ?x)
            then handleTableElement tw tc rc node ?x
            else if DataAtom node = Table
            then andThen (emit (str ''\<newline>\<newline>'' @ [0x229E] @ str '' table '' @ [0x229E] @ str ''\<newline>\<newline>'') ?x)
                   (\<lambda>ctx. paragraphHandler tc ctx)
            else andThen (if DataAtom node = Tr then emit (str ''\<newline>'') ?x else Inr ?x)
                   (\<lambda>ctx. tc ctx)) = Inr y"
      by (simp add: handleElement_def Let_def)
    then show ?thesis by (rule tb)
  next
    case Td
    with h have "(if PrettyTables (options ?x)
            then handleTableElement tw tc rc node ?x
            else if DataAtom node = Table
            then andThen (emit (str ''\<newline>\<newline>'' @ [0x229E] @ str '' table '' @ [0x229E] @ str ''\<newline>\<newline>'') ?x)
                   (\<lambda>ctx. paragraphHandler tc ctx)
            else andThen (if DataAtom node = Tr then emit (str ''\<newline>'') ?x else Inr ?x)
                   (\<lambda>ctx. tc ctx)) = Inr y"
      by (simp add: handleElement_def Let_def)
    then show ?thesis by (rule tb)
  next
    case Pre
    then have m1: "mayStart ok ?x" by (intro m) simp_all
    from Pre h obtain x1 x2 where 1: "emit (str ''```\<newline>'') ?x = Inr x1"
      and 2: "tc (x1\<lparr>isPre := True\<rparr>) = Inr x2"
      and 3: "emit (str ''\<newline>```'') (x2\<lparr>isPre := False\<rparr>) = Inr y"
      by (auto simp: handleElement_def Let_def elim!: andThenE)
    from 1 have "Wr 0 ?x x1" by (rule emit_Wr0)
    then have "Wr 0 ?x (x1\<lparr>isPre := True\<rparr>)" by simp
    with 2 have "Wr 0 ?x x2" by (rule run [OF m1])
    then have "Wr 0 ?x (x2\<lparr>isPre := False\<rparr>)" by simp
    with 3 have "Wr 0 ?x y" by (rule Wr_emit)
    then show ?thesis by (rule x)
  next
    case Style
    with h show ?thesis by (auto simp: handleElement_def Let_def Wr_refl)
  next
    case Script
    with h show ?thesis by (auto simp: handleElement_def Let_def Wr_refl)
  next
    case Head
    with h show ?thesis by (auto simp: handleElement_def Let_def Wr_refl)
  next
    case Footer
    then have m1: "mayStart ok ?x" by (intro m) simp_all
    from Footer h have "tc ?x = Inr y" by (auto simp: handleElement_def Let_def)
    then have "Wr 0 ?x y" by (rule run [OF m1 _ Wr_refl])
    then show ?thesis by (rule x)
  next
    case Nav
    then have m1: "mayStart ok ?x" by (intro m) simp_all
    from Nav h have "tc ?x = Inr y" by (auto simp: handleElement_def Let_def)
    then have "Wr 0 ?x y" by (rule run [OF m1 _ Wr_refl])
    then show ?thesis by (rule x)
  next
    case OtherAtom
    then have m1: "mayStart ok ?x" by (intro m) simp_all
    from OtherAtom h have "tc ?x = Inr y" by (auto simp: handleElement_def Let_def)
    then have "Wr 0 ?x y" by (rule run [OF m1 _ Wr_refl])
    then show ?thesis by (rule x)
  qed
qed

lemma traverse_Wr_all:
  fixes c c' :: "'a Options_scheme textifyTraverseContext"
  shows "traverse tw n c = Inr c' \<Longrightarrow> mayStart (cellsInTables n) c \<Longrightarrow> Wr 0 c c'"
    and "traverseNodes tw ns c = Inr c' \<Longrightarrow> mayStart (list_all cellsInTables ns) c \<Longrightarrow> Wr 0 c c'"
    and "renderNodes tw ns b c = Inr (s, c') \<Longrightarrow> 0 < tableNestLevel (linkAccumulator c) \<Longrightarrow> Wr 0 c c'"
proof (induction tw n c and tw ns c and tw ns b c arbitrary: c' and c' and s c'
    rule: traverse_traverseNodes_renderNodes.induct)
  case (1 tw ty a d attrs cs ctx)
  show ?case
  proof (cases ty)
    case TextNode
    with "1.prems" show ?thesis by (auto dest: emit_Wr0)
  next
    case ElementNode
    have k: "keepsW (list_all cellsInTables cs)
        (\<lambda>x::'a Options_scheme textifyTraverseContext. traverseNodes tw cs x)"
      by (simp add: keepsW_def "1.IH"(3) [OF ElementNode])
    have kr: "keepsWR (\<lambda>x::'a Options_scheme textifyTraverseContext. renderNodes tw cs [] x)"
      by (simp add: keepsWR_def "1.IH"(4) [OF ElementNode])
    from "1.prems"(1) ElementNode have
      h: "handleElement tw (\<lambda>x. traverseNodes tw cs x) (\<lambda>x. renderNodes tw cs [] x)
         (Node ty a d attrs cs) ctx = Inr c'"
      by simp
    from "1.prems"(2) ElementNode have
      "mayStart (DataAtom (Node ty a d attrs cs) \<noteq> Th \<and> DataAtom (Node ty a d attrs cs) \<noteq> Td
          \<and> (DataAtom (Node ty a d attrs cs) = Table \<or> list_all cellsInTables cs)) ctx"
      by simp
    from handleElement_Wr [OF k kr this h] show ?thesis .
  next
    case ErrorNode
    with "1.prems" "1.IH"(1) show ?thesis by simp
  next
    case DocumentNode
    with "1.prems" "1.IH"(2) show ?thesis by simp
  next
    case CommentNode
    with "1.prems" "1.IH"(5) show ?thesis by simp
  next
    case DoctypeNode
    with "1.prems" "1.IH"(6) show ?thesis by simp
  qed
next
  case (2 tw ctx)
  then show ?case by (simp add: Wr_refl)
next
  case (3 tw c cs ctx)
  from "3.prems"(1) obtain b where 1: "traverse tw c ctx = Inr b" and 2: "traverseNodes tw cs b = Inr c'"
    by (auto split: sum.splits)
  from "3.prems"(2) have m1: "mayStart (cellsInTables c) ctx" and m2: "mayStart (list_all cellsInTables cs) ctx"
    by (auto simp: mayStart_def)
  from "3.IH"(1) [OF 1 m1] have w1: "Wr 0 ctx b" .
  from mayStart_step [OF w1 m2] have "mayStart (list_all cellsInTables cs) b" .
  from "3.IH"(2) [OF 1 2 this] have "Wr 0 b c'" .
  with w1 show ?case by (rule Wr_then)
next
  case (4 tw b ctx)
  then show ?case by (simp add: Wr_refl)
next
  case (5 tw c cs b ctx)
  from "5.prems"(1) obtain s0 g where
    1: "FromHTMLNode_body (traverse tw c) (options ctx) (linkAccumulator ctx) = Inr (s0, g)"
    and 2: "renderNodes tw cs (b @ s0 @ (if cs \<noteq> [] then str ''\<newline>'' else []))
              (ctx\<lparr>linkAccumulator := g\<rparr>) = Inr (s, c')"
    by (auto split: sum.splits prod.splits)
  let ?n = "newContext (options ctx) (linkAccumulator ctx)"
  from 1 obtain y where t: "traverse tw c ?n = Inr y"
    and g: "g = linkAccumulator (forceFlushGeminiCitations y)"
    unfolding FromHTMLNode_body_def by (auto elim!: andThenE simp: Let_def)
  from "5.prems"(2) have ln: "0 < tableNestLevel (linkAccumulator ?n)" by (simp add: newContext_def)
  then have "mayStart (cellsInTables c) ?n" by (simp add: mayStart_def)
  from "5.IH"(1) [OF t this] have wy: "Wr 0 ?n y" .
  with ln have ly: "0 < tableNestLevel (linkAccumulator y)"
    and wr: "written (linkAccumulator y) = written (linkAccumulator ctx)"
    by (simp_all add: Wr_def Eff_def newContext_def)
  from ly g have gy: "g = linkAccumulator y" by (simp add: forceFlush_in_table)
  have k: "keeps (traverse tw c :: 'a Options_scheme textifyTraverseContext \<Rightarrow> _)"
    by (simp add: keeps_def traverse_Eff_all(1))
  from FromHTMLNode_body_Eff [OF k 1 refl refl] have e: "Eff 0 ctx (ctx\<lparr>linkAccumulator := g\<rparr>)" .
  have w1: "Wr 0 ctx (ctx\<lparr>linkAccumulator := g\<rparr>)"
    using e gy wr by (simp add: Wr_def Out_def)
  from e "5.prems"(2) have "0 < tableNestLevel (linkAccumulator (ctx\<lparr>linkAccumulator := g\<rparr>))"
    by (simp add: Eff_def)
  from "5.IH"(2) [OF 1 refl 2 this] have "Wr 0 (ctx\<lparr>linkAccumulator := g\<rparr>) c'" .
  with w1 show ?case by (rule Wr_then)
qed

lemma FromHTMLNode_lines:
  assumes r: "FromHTMLNode tw doc os g = Inr (text, g')" and i: "accInv g" and t: "tableNestLevel g = 0"
    and n: "PrettyTables (givenOptions os) \<longrightarrow> cellsInTables doc"
  shows "\<exists>b. FromHTMLNode_buffer tw doc os g = Inr b \<and> text = normalizeText b
     \<and> inOrder (map (citationLine (givenOptions os))
                  (drop (nat (flushedToIndex g + 1)) (linkArray g'))) b"
proof -
  let ?n = "newContext (givenOptions os) g"
  from r obtain y :: "Options textifyTraverseContext" where
    y: "traverse tw doc ?n = Inr y"
    and g': "g' = linkAccumulator (forceFlushGeminiCitations y)"
    and tx: "text = normalizeText (buf (forceFlushGeminiCitations y))"
    unfolding FromHTMLNode_def FromHTMLNode_body_def by (auto elim!: andThenE simp: Let_def)
  from y have b: "FromHTMLNode_buffer tw doc os g = Inr (buf (forceFlushGeminiCitations y))"
    by (simp add: FromHTMLNode_buffer_def andThen_def)
  from t n have "mayStart (cellsInTables doc) ?n" by (simp add: mayStart_def newContext_def)
  from traverse_Wr_all(1) [OF y this] have "Wr 0 ?n (forceFlushGeminiCitations y)"
    by (rule Wr_forceFlush)
  then have "Out ?n (forceFlushGeminiCitations y)" by (simp add: Wr_def)
  then obtain d w where d: "buf (forceFlushGeminiCitations y) = d"
    and w: "written g' = written g @ w"
    and o: "inOrder (map (citationLine (givenOptions os)) w) d"
    unfolding Out_def g' by (auto simp: newContext_def)
  from FromHTMLNode_final [OF r i] t have f: "written g' = linkArray g'" by simp
  from i have l: "length (written g) = nat (flushedToIndex g + 1)"
    by (auto simp: accInv_def)
  from w have "w = drop (length (written g)) (written g')" by simp
  with f l have "w = drop (nat (flushedToIndex g + 1)) (linkArray g')" by simp
  with o d b tx show ?thesis by simp
qed

text \<open>
  C4, as the code has it. During a traversal \<open>flushedToIndex\<close> never decreases. Outside a
  table a flush writes a blank line, the lines of exactly the citations beyond
  \<open>flushedToIndex\<close> and a newline, straight to the buffer of the context it runs in, and moves
  \<open>flushedToIndex\<close> to the last citation, so that no citation at or below it is written
  again; inside a table it writes nothing. When a render ends, every citation of the array
  has been written by a flush exactly once: the citations written are the array itself,
  those of this render being the ones that were waiting at its start followed by the ones
  it has registered. And when pretty tables are off, or no table cell of the tree lies
  outside a table, the lines of these citations are in the buffer of the render, in the
  order of the array and each in a place of its own; the text returned is the normalisation
  of that buffer.
\<close>

theorem citations_flushed_once:
  fixes c c' :: "Options textifyTraverseContext"
  shows
  "(traverse tw n c = Inr c' \<longrightarrow> accInv (linkAccumulator c) \<longrightarrow>
      accInv (linkAccumulator c')
      \<and> flushedToIndex (linkAccumulator c) \<le> flushedToIndex (linkAccumulator c'))
   \<and> forceFlushGeminiCitations c =
       (if 0 < tableNestLevel (linkAccumulator c) then c
        else c\<lparr>buf := buf c @ str ''\<newline>\<newline>''
                  @ concat (map (citationLine (options c))
                      (drop (nat (flushedToIndex (linkAccumulator c) + 1)) (linkArray (linkAccumulator c))))
                  @ str ''\<newline>'',
               linkAccumulator := (linkAccumulator c)
                 \<lparr>written := written (linkAccumulator c)
                     @ drop (nat (flushedToIndex (linkAccumulator c) + 1)) (linkArray (linkAccumulator c)),
                  flushedToIndex := int (length (linkArray (linkAccumulator c))) - 1,
                  emitParaCount := 0\<rparr>\<rparr>)
   \<and> (FromHTMLNode tw doc os g = Inr (text, g') \<longrightarrow> accInv g \<longrightarrow> tableNestLevel g = 0 \<longrightarrow>
        flushedToIndex g \<le> flushedToIndex g'
        \<and> flushedToIndex g' = int (length (linkArray g')) - 1
        \<and> written g' = linkArray g'
        \<and> (\<exists>new. linkArray g' = linkArray g @ new
              \<and> written g' = written g @ drop (nat (flushedToIndex g + 1)) (linkArray g) @ new)
        \<and> ((PrettyTables (givenOptions os) \<longrightarrow> cellsInTables doc) \<longrightarrow>
            (\<exists>b. FromHTMLNode_buffer tw doc os g = Inr b \<and> text = normalizeText b
               \<and> inOrder (map (citationLine (givenOptions os))
                            (drop (nat (flushedToIndex g + 1)) (linkArray g'))) b)))"
proof (intro conjI impI)
  assume "traverse tw n c = Inr c'" and "accInv (linkAccumulator c)"
  then show "accInv (linkAccumulator c')" 
    and "flushedToIndex (linkAccumulator c) \<le> flushedToIndex (linkAccumulator c')"
    using traverse_monotone by blast+
next
  show "forceFlushGeminiCitations c =
       (if 0 < tableNestLevel (linkAccumulator c) then c
        else c\<lparr>buf := buf c @ str ''\<newline>\<newline>''
                  @ concat (map (citationLine (options c))
                      (drop (nat (flushedToIndex (linkAccumulator c) + 1)) (linkArray (linkAccumulator c))))
                  @ str ''\<newline>'',
               linkAccumulator := (linkAccumulator c)
                 \<lparr>written := written (linkAccumulator c)
                     @ drop (nat (flushedToIndex (linkAccumulator c) + 1)) (linkArray (linkAccumulator c)),
                  flushedToIndex := int (length (linkArray (linkAccumulator c))) - 1,
                  emitParaCount := 0\<rparr>\<rparr>)"
    by (rule forceFlushGeminiCitations_eq)
next
  assume r: "FromHTMLNode tw doc os g = Inr (text, g')" and i: "accInv g" and t: "tableNestLevel g = 0"
  from FromHTMLNode_Eff [OF r] i obtain new where
    m: "flushedToIndex g \<le> flushedToIndex g'" and n: "linkArray g' = linkArray g @ new"
    by (auto simp: Eff_def newContext_def)
  from FromHTMLNode_final [OF r i] t have
    f: "flushedToIndex g' = int (length (linkArray g')) - 1" and w: "written g' = linkArray g'"
    by simp_all
  from i have "written g @ drop (nat (flushedToIndex g + 1)) (linkArray g) = linkArray g"
    by (simp add: accInv_def)
  with w n have "written g' = written g @ drop (nat (flushedToIndex g + 1)) (linkArray g) @ new"
    by (metis append.assoc)
  with n have e: "\<exists>new. linkArray g' = linkArray g @ new
              \<and> written g' = written g @ drop (nat (flushedToIndex g + 1)) (linkArray g) @ new"
    by blast
  show "flushedToIndex g \<le> flushedToIndex g'" by (rule m)
  show "flushedToIndex g' = int (length (linkArray g')) - 1" by (rule f)
  show "written g' = linkArray g'" by (rule w)
  show "\<exists>new. linkArray g' = linkArray g @ new
              \<and> written g' = written g @ drop (nat (flushedToIndex g + 1)) (linkArray g) @ new"
    by (rule e)
  assume "PrettyTables (givenOptions os) \<longrightarrow> cellsInTables doc"
  with r i t show "\<exists>b. FromHTMLNode_buffer tw doc os g = Inr b \<and> text = normalizeText b
               \<and> inOrder (map (citationLine (givenOptions os))
                            (drop (nat (flushedToIndex g + 1)) (linkArray g'))) b"
    by (rule FromHTMLNode_lines)
qed

theorem citations_flushed_once_witness:
  "accInv newLinkAccumulator \<and> tableNestLevel newLinkAccumulator = 0
   \<and> cellsInTables tableDocument
   \<and> FromHTMLNode plainTable tableDocument [exampleOptions\<lparr>PrettyTables := True\<rparr>] newLinkAccumulator
     = Inr (str ''L [1]\<newline>\<newline>=> x [1] L\<newline>\<newline># T\<newline>\<newline>```\<newline>M [2] ```\<newline>\<newline>=> y [2] M'',
            \<lparr>emitParaCount = 0,
             linkArray = [\<lparr>index = 1, url = str ''x'', display = str ''L''\<rparr>,
                          \<lparr>index = 2, url = str ''y'', display = str ''M''\<rparr>],
             flushedToIndex = 1, tableNestLevel = 0,
             written = [\<lparr>index = 1, url = str ''x'', display = str ''L''\<rparr>,
                        \<lparr>index = 2, url = str ''y'', display = str ''M''\<rparr>]\<rparr>)
   \<and> flushedToIndex newLinkAccumulator \<le> 1
   \<and> (\<exists>b. FromHTMLNode_buffer plainTable tableDocument [exampleOptions\<lparr>PrettyTables := True\<rparr>]
             newLinkAccumulator = Inr b
          \<and> str ''L [1]\<newline>\<newline>=> x [1] L\<newline>\<newline># T\<newline>\<newline>```\<newline>M [2] ```\<newline>\<newline>=> y [2] M'' = normalizeText b
          \<and> inOrder [str ''=> x [1] L\<newline>'', str ''=> y [2] M\<newline>''] b)"
proof -
  let ?os = "[exampleOptions\<lparr>PrettyTables := True\<rparr>]"
  let ?l1 = "\<lparr>index = 1, url = str ''x'', display = str ''L''\<rparr>"
  let ?l2 = "\<lparr>index = 2, url = str ''y'', display = str ''M''\<rparr>"
  let ?g = "\<lparr>emitParaCount = 0, linkArray = [?l1, ?l2],
             flushedToIndex = 1, tableNestLevel = 0, written = [?l1, ?l2]\<rparr>"
  let ?text = "str ''L [1]\<newline>\<newline>=> x [1] L\<newline>\<newline># T\<newline>\<newline>```\<newline>M [2] ```\<newline>\<newline>=> y [2] M''"
  have r: "FromHTMLNode plainTable tableDocument ?os newLinkAccumulator = Inr (?text, ?g)"
    by code_simp
  have i: "accInv newLinkAccumulator" and t: "tableNestLevel newLinkAccumulator = 0"
    by (simp_all add: accInv_def newLinkAccumulator_def)
  have n: "cellsInTables tableDocument" by code_simp
  have l: "map (citationLine (givenOptions ?os))
             (drop (nat (flushedToIndex newLinkAccumulator + 1)) (linkArray ?g))
           = [str ''=> x [1] L\<newline>'', str ''=> y [2] M\<newline>'']"
    by code_simp
  note th = citations_flushed_once [of plainTable "textNode ''a''" "newContext exampleOptions newLinkAccumulator" _
      tableDocument ?os newLinkAccumulator ?text ?g]
  from th r i t have 1: "flushedToIndex newLinkAccumulator \<le> flushedToIndex ?g" by blast
  from th r i t n have "\<exists>b. FromHTMLNode_buffer plainTable tableDocument ?os newLinkAccumulator = Inr b
          \<and> ?text = normalizeText b
          \<and> inOrder (map (citationLine (givenOptions ?os))
                       (drop (nat (flushedToIndex newLinkAccumulator + 1)) (linkArray ?g))) b"
    by blast
  then have 2: "\<exists>b. FromHTMLNode_buffer plainTable tableDocument ?os newLinkAccumulator = Inr b
          \<and> ?text = normalizeText b
          \<and> inOrder [str ''=> x [1] L\<newline>'', str ''=> y [2] M\<newline>''] b"
    unfolding l .
  from 1 have "flushedToIndex newLinkAccumulator \<le> 1" by simp
  with r i t n 2 show ?thesis by blast
qed

text \<open>
  The claim as it is worded fails for the output. The display text of the first link holds
  newlines, and the normalisation changes its line: the line written for the citation is
  not in the text returned. In the second render, with pretty tables on, the cell lies
  outside a table: its citation is flushed to the buffer of the cell, which no table ever
  emits, and the text returned is empty although the citation is registered.
\<close>

theorem citations_flushed_once_counterexample:
  "FromHTMLNode plainTable
       (element A [(str ''href'', str ''x'')] [textNode ''L\<newline>\<newline>\<newline> M'']) [exampleOptions]
       newLinkAccumulator
     = Inr (str ''L M [1]\<newline>\<newline>=> x [1] L\<newline>\<newline>M'',
            \<lparr>emitParaCount = 0,
             linkArray = [\<lparr>index = 1, url = str ''x'', display = str ''L\<newline>\<newline>\<newline> M''\<rparr>],
             flushedToIndex = 0, tableNestLevel = 0,
             written = [\<lparr>index = 1, url = str ''x'', display = str ''L\<newline>\<newline>\<newline> M''\<rparr>]\<rparr>)
   \<and> inOrder [str ''=> x [1] L\<newline>\<newline>\<newline> M''] (str ''L M [1]\<newline>\<newline>=> x [1] L\<newline>\<newline>M'') = False
   \<and> FromHTMLNode plainTable
       (element Tr [] [element Td [] [element A [(str ''href'', str ''x'')] [textNode ''L'']]])
       [exampleOptions\<lparr>PrettyTables := True\<rparr>] newLinkAccumulator
     = Inr ([],
            \<lparr>emitParaCount = 0,
             linkArray = [\<lparr>index = 1, url = str ''x'', display = str ''L''\<rparr>],
             flushedToIndex = 0, tableNestLevel = 0,
             written = [\<lparr>index = 1, url = str ''x'', display = str ''L''\<rparr>]\<rparr>)"
  by code_simp

section \<open>The slice of the url never faults\<close>

lemma emit_not_Inl: "emit d c \<noteq> Inl e"
  using emit_ok [of d c] by auto

lemma andThen_not_Inl:
  "m \<noteq> Inl e \<Longrightarrow> (\<And>x. f x \<noteq> Inl e) \<Longrightarrow> andThen m f \<noteq> Inl e"
  by (cases m) (simp_all add: andThen_def)

lemma Repeat_not_slice: "Repeat s n \<noteq> Inl SliceBoundsOutOfRange"
  by (simp add: Repeat_def)

lemma addGeminiCitation_panics: "addGeminiCitation u d c = Inl e \<longleftrightarrow> u = [] \<and> e = SliceBoundsOutOfRange"
  by (auto simp: addGeminiCitation_def Let_def)

lemma citeAttr_not_Inl: "citeAttr v t c \<noteq> Inl e"
  by (simp add: citeAttr_def Let_def addGeminiCitation_panics)

definition noSlicePanic :: "panic + 'a \<Rightarrow> bool" where
  "noSlicePanic r = (r \<noteq> Inl SliceBoundsOutOfRange)"

lemma noSlicePanic_simps [simp]:
  "noSlicePanic (Inr x)" "noSlicePanic (emit d c)" "noSlicePanic (citeAttr v t c)"
  "noSlicePanic (Repeat s n)" "noSlicePanic (Inl IndexOutOfRange)"
  "noSlicePanic (Inl HandleTableElementInactive)"
  by (simp_all add: noSlicePanic_def emit_not_Inl citeAttr_not_Inl Repeat_not_slice)

lemma noSlicePanic_andThen:
  "noSlicePanic m \<Longrightarrow> (\<And>x. noSlicePanic (f x)) \<Longrightarrow> noSlicePanic (andThen m f)"
  unfolding noSlicePanic_def by (rule andThen_not_Inl)

lemma paragraphHandler_noSlicePanic:
  "(\<And>x. noSlicePanic (tc x)) \<Longrightarrow> noSlicePanic (paragraphHandler tc c)"
  unfolding paragraphHandler_def by (intro noSlicePanic_andThen) simp_all

lemma handleTableElement_noSlicePanic:
  assumes tc: "\<And>x. noSlicePanic (tc x)" and rc: "\<And>x. noSlicePanic (rc x)"
  shows "noSlicePanic (handleTableElement tw tc rc node c)"
  unfolding handleTableElement_def
  by (cases "DataAtom node")
     (auto intro!: noSlicePanic_andThen tc rc simp: Let_def split: prod.splits)

lemma handleElement_noSlicePanic:
  assumes tc: "\<And>x. noSlicePanic (tc x)" and rc: "\<And>x. noSlicePanic (rc x)"
  shows "noSlicePanic (handleElement tw tc rc node c)"
  unfolding handleElement_def Let_def
  by (cases "DataAtom node")
     (auto intro!: noSlicePanic_andThen tc rc paragraphHandler_noSlicePanic
        handleTableElement_noSlicePanic split: prod.splits list.splits)

lemma FromHTMLNode_body_noSlicePanic:
  "(\<And>x. noSlicePanic (trav x)) \<Longrightarrow> noSlicePanic (FromHTMLNode_body trav opts g)"
  unfolding FromHTMLNode_body_def by (intro noSlicePanic_andThen) (simp_all add: Let_def)

lemma traverse_noSlicePanic:
  fixes c :: "'a Options_scheme textifyTraverseContext"
  shows "noSlicePanic (traverse tw n c)"
    and "noSlicePanic (traverseNodes tw ns c)"
    and "noSlicePanic (renderNodes tw ns b c)"
proof (induction tw n c and tw ns c and tw ns b c rule: traverse_traverseNodes_renderNodes.induct)
  case (1 tw ty a d attrs cs ctx)
  show ?case
  proof (cases ty)
    case ElementNode
    from "1.IH"(3) [OF ElementNode] "1.IH"(4) [OF ElementNode]
    have "noSlicePanic (handleElement tw (\<lambda>x. traverseNodes tw cs x) (\<lambda>x. renderNodes tw cs [] x)
         (Node ty a d attrs cs) ctx)"
      by (intro handleElement_noSlicePanic)
    with ElementNode show ?thesis by simp
  qed (use 1 in simp_all)
next
  case (2 tw ctx)
  show ?case by simp
next
  case (3 tw c cs ctx)
  then show ?case by (auto simp: noSlicePanic_def split: sum.splits)
next
  case (4 tw b ctx)
  show ?case by simp
next
  case (5 tw c cs b ctx)
  have "noSlicePanic (FromHTMLNode_body (traverse tw c) (options ctx) (linkAccumulator ctx))"
    using "5.IH"(1) by (intro FromHTMLNode_body_noSlicePanic)
  with "5.IH"(2) show ?case by (auto simp: noSlicePanic_def split: sum.splits prod.splits)
qed

text \<open>
  C10: \<open>addGeminiCitation\<close> panics exactly on the empty url, and then with the slice bounds
  of \<open>url[0:1]\<close>; the call sites of anchors and images, which test the attribute before and
  after \<open>normalizeHrefLink\<close>, never panic; and no render ends in that panic.
\<close>

theorem url_slice_never_faults:
  "(addGeminiCitation u d ctx = Inl e \<longleftrightarrow> u = [] \<and> e = SliceBoundsOutOfRange)
   \<and> citeAttr v t ctx \<noteq> Inl e
   \<and> traverse tw n ctx \<noteq> Inl SliceBoundsOutOfRange
   \<and> FromHTMLNode tw doc os g \<noteq> Inl SliceBoundsOutOfRange"
proof -
  have "noSlicePanic (FromHTMLNode tw doc os g)"
    unfolding FromHTMLNode_def by (intro FromHTMLNode_body_noSlicePanic traverse_noSlicePanic(1))
  with traverse_noSlicePanic(1) [of tw n ctx] show ?thesis
    by (simp add: noSlicePanic_def addGeminiCitation_panics citeAttr_not_Inl)
qed

section \<open>The probe of list items and paragraphs in the second variant\<close>





end
